theory Spec2Isabelle
  imports Main
begin

section \<open>Characters and strings\<close>

text \<open>
  A JavaScript string is modelled as a \<^typ>\<open>string\<close>: a list of code units, each below 256.
  Offsets count code units, as \<^verbatim>\<open>String.prototype.length\<close> does.
  The line terminators of a regular expression (\<^verbatim>\<open>.\<close>, \<^verbatim>\<open>^\<close> and \<^verbatim>\<open>$\<close> under the
  \<^verbatim>\<open>m\<close> flag) below 256 are line feed and carriage return; the white space of
  \<^verbatim>\<open>\s\<close> and of \<^verbatim>\<open>trim()\<close> below 256 is tab, line feed, vertical tab, form feed,
  carriage return, space and no-break space.
\<close>

definition is_line_terminator :: "char \<Rightarrow> bool" where
  "is_line_terminator c = (c = CHR 0x0A \<or> c = CHR 0x0D)"

definition is_space :: "char \<Rightarrow> bool" where
  "is_space c =
     (c = CHR 0x09 \<or> c = CHR 0x0A \<or> c = CHR 0x0B \<or> c = CHR 0x0C \<or> c = CHR 0x0D \<or>
      c = CHR 0x20 \<or> c = CHR 0xA0)"

text \<open>The character class \<^verbatim>\<open>[ \t]\<close>.\<close>

definition is_blank :: "char \<Rightarrow> bool" where
  "is_blank c = (c = CHR 0x20 \<or> c = CHR 0x09)"

text \<open>\<^verbatim>\<open>String.prototype.trim\<close>.\<close>

definition trim :: "string \<Rightarrow> string" where
  "trim s = rev (dropWhile is_space (rev (dropWhile is_space s)))"

section \<open>Regular expression matches\<close>

text \<open>
  The result of \<^verbatim>\<open>RegExp.prototype.exec\<close> on a string: the index of the match, the
  matched text (\<^verbatim>\<open>m[0]\<close>) and the capture groups, numbered (\<^verbatim>\<open>m[1]\<close> is group
  \<open>''1''\<close>) or named. A regular expression is the function from the subject string to
  its match; \<open>None\<close> is JavaScript's \<^verbatim>\<open>null\<close>. No expression of the parser carries the
  \<^verbatim>\<open>g\<close> or \<^verbatim>\<open>y\<close> flag, so a match depends on the subject only.
\<close>

record rmatch =
  m_index :: nat
  m_whole :: string
  m_groups :: "string \<Rightarrow> string option"

type_synonym regex = "string \<Rightarrow> rmatch option"

definition mk_match :: "nat \<Rightarrow> string \<Rightarrow> rmatch" where
  "mk_match i w = \<lparr>m_index = i, m_whole = w, m_groups = (\<lambda>_. None)\<rparr>"

text \<open>
  The leftmost match of \<^verbatim>\<open>^X\<close> under the \<^verbatim>\<open>m\<close> flag: \<open>p\<close> matches \<^verbatim>\<open>X\<close> at the start
  of its argument and gives the length of the match; the search tries the start of the
  subject and every position after a line terminator, from the left. The result is the
  index and the length.
\<close>

fun search_bol :: "(string \<Rightarrow> nat option) \<Rightarrow> bool \<Rightarrow> nat \<Rightarrow> string \<Rightarrow> (nat \<times> nat) option" where
  "search_bol p bol i [] = (if bol then map_option (Pair i) (p []) else None)"
| "search_bol p bol i (c # cs) =
     (case (if bol then p (c # cs) else None) of
        Some n \<Rightarrow> Some (i, n)
      | None \<Rightarrow> search_bol p (is_line_terminator c) (Suc i) cs)"

definition re_multiline :: "(string \<Rightarrow> nat option) \<Rightarrow> regex" where
  "re_multiline p s =
     (case search_bol p True 0 s of
        None \<Rightarrow> None
      | Some (i, n) \<Rightarrow> Some (mk_match i (take n (drop i s))))"

text \<open>The match of \<^verbatim>\<open>^X\<close> without the \<^verbatim>\<open>m\<close> flag: at index 0 only.\<close>

definition re_anchored :: "(string \<Rightarrow> nat option) \<Rightarrow> regex" where
  "re_anchored p s =
     (case p s of None \<Rightarrow> None | Some n \<Rightarrow> Some (mk_match 0 (take n s)))"

text \<open>
  \<^verbatim>\<open>\*{lo,hi}[C]\<close> at the start of \<open>s\<close>, for a class \<open>C\<close> without the star: the run of
  stars is maximal (a shorter run is followed by a star, which is not in \<open>C\<close>), so the
  expression matches when the run has between \<open>lo\<close> and \<open>hi\<close> stars and a character of
  \<open>C\<close> follows. \<open>None\<close> as \<open>hi\<close> is no upper bound (\<^verbatim>\<open>\*+\<close> is \<^verbatim>\<open>\*{1,}\<close>).
\<close>

definition stars_then :: "nat \<Rightarrow> nat option \<Rightarrow> (char \<Rightarrow> bool) \<Rightarrow> string \<Rightarrow> nat option" where
  "stars_then lo hi cls s =
     (let n = length (takeWhile (\<lambda>c. c = CHR ''*'') s) in
      case drop n s of
        [] \<Rightarrow> None
      | c # _ \<Rightarrow>
          if lo \<le> n \<and> (case hi of None \<Rightarrow> True | Some h \<Rightarrow> n \<le> h) \<and> cls c
          then Some (Suc n) else None)"

text \<open>\<^verbatim>\<open>/^\*+[ \t]/m\<close>, the next heading of \<^verbatim>\<open>parseElement\<close> in mode first-section.\<close>

definition re_nextHeading :: regex where
  "re_nextHeading = re_multiline (stars_then 1 None is_blank)"

text \<open>
  \<^verbatim>\<open>/^\*+[ \\t]/m\<close>, the end of a section in \<^verbatim>\<open>parseSection\<close>. In a regular expression
  literal \<^verbatim>\<open>\\\<close> is the backslash and \<^verbatim>\<open>t\<close> the letter, so the class holds the space,
  the backslash and the letter t.
\<close>

definition section_class :: "char \<Rightarrow> bool" where
  "section_class c = (c = CHR 0x20 \<or> c = CHR 0x5C \<or> c = CHR ''t'')"

definition re_sectionEnd :: regex where
  "re_sectionEnd = re_multiline (stars_then 1 None section_class)"

text \<open>\<^verbatim>\<open>/^\*+ /\<close> of \<^verbatim>\<open>atHeading\<close>.\<close>

definition re_atHeading :: regex where
  "re_atHeading = re_anchored (stars_then 1 None (\<lambda>c. c = CHR 0x20))"

text \<open>
  \<^verbatim>\<open>^(\*+)[ \t]+\<close> of \<^verbatim>\<open>parseHeadline\<close>: the stars (group 1) and the run of spaces and
  tabs after them, both maximal.
\<close>

definition re_stars :: regex where
  "re_stars s =
     (let n = length (takeWhile (\<lambda>c. c = CHR ''*'') s);
          k = length (takeWhile is_blank (drop n s))
      in if 1 \<le> n \<and> 1 \<le> k
         then Some \<lparr>m_index = 0, m_whole = take (n + k) s,
                     m_groups = (\<lambda>g. if g = ''1'' then Some (take n s) else None)\<rparr>
         else None)"

text \<open>\<^verbatim>\<open>/^.*/\<close> of \<^verbatim>\<open>parseHeadline\<close>: the characters up to the first line terminator.\<close>

definition re_title :: regex where
  "re_title s = Some (mk_match 0 (takeWhile (\<lambda>c. \<not> is_line_terminator c) s))"

text \<open>
  \<^verbatim>\<open>^\*{1,level}[ \t]\<close> with the \<^verbatim>\<open>m\<close> flag, the end of the subtree of a headline of the
  given level.
\<close>

definition re_endOfSubtree :: "nat \<Rightarrow> regex" where
  "re_endOfSubtree level = re_multiline (stars_then 1 (Some level) is_blank)"

text \<open>
  \<^verbatim>\<open>/^[ \t]*$/\<close> of \<^verbatim>\<open>parseListStructure\<close>: without the \<^verbatim>\<open>m\<close> flag \<^verbatim>\<open>$\<close> is the end of
  the subject, so the whole subject is spaces and tabs.
\<close>

definition re_blankRest :: regex where
  "re_blankRest s = (if list_all is_blank s then Some (mk_match 0 s) else None)"

text \<open>\<^verbatim>\<open>/^[ \t]*/\<close> of \<^verbatim>\<open>parseListStructure\<close>: the leading spaces and tabs.\<close>

definition re_leadingBlank :: regex where
  "re_leadingBlank s = Some (mk_match 0 (takeWhile is_blank s))"

text \<open>
  \<^verbatim>\<open>/^(\S+):\S+/\<close>, the plain link of \<^verbatim>\<open>parseLink\<close>. Both \<^verbatim>\<open>\S+\<close> are greedy: the
  match is the whole leading run of non-space characters, and group 1 ends at the last
  colon of the run that has a character of the run on either side.
\<close>

definition re_plainLink :: regex where
  "re_plainLink s =
     (let run = takeWhile (\<lambda>c. \<not> is_space c) s;
          ks = filter (\<lambda>k. run ! k = CHR '':'') [1 ..< length run - 1]
      in if ks = [] then None
         else Some \<lparr>m_index = 0, m_whole = run,
                     m_groups = (\<lambda>g. if g = ''1'' then Some (take (last ks) run) else None)\<rparr>)"

subsection \<open>The bracket link\<close>

text \<open>
  \<^verbatim>\<open>/\[\[(?<link>([^\[\]]|\\(\\\\)*[\[\]]|\\+[^\[\]])+)\](\[(?<text>.+?)\])?\]/\<close>
  of \<^verbatim>\<open>parseLink\<close>, which has no anchor and no flag.

  The description \<^verbatim>\<open>.+?\<close> is lazy: after \<^verbatim>\<open>[\<close> it is the shortest non-empty run without
  a line terminator that two closing brackets follow. \<open>text_len\<close> reads the subject
  after that \<^verbatim>\<open>[\<close> and gives the length of the run.
\<close>

fun text_len :: "string \<Rightarrow> nat option" where
  "text_len [] = None"
| "text_len (c # cs) =
     (if is_line_terminator c then None
      else case cs of
             d # e # _ \<Rightarrow>
               if d = CHR '']'' \<and> e = CHR '']'' then Some 1 else map_option Suc (text_len cs)
           | _ \<Rightarrow> None)"

text \<open>
  What follows the target, read from after the bracket that closes it: a closing
  bracket (no description, the result is \<open>Some None\<close>), or a description in brackets
  and a closing bracket (\<open>Some (Some n)\<close>, a description of \<open>n\<close> characters).
\<close>

definition link_tail :: "string \<Rightarrow> nat option option" where
  "link_tail cs =
     (case cs of
        [] \<Rightarrow> None
      | c # u \<Rightarrow>
          if c = CHR '']'' then Some None
          else if c = CHR ''['' then map_option Some (text_len u)
          else None)"

text \<open>
  The target is a non-empty sequence of the alternatives \<^verbatim>\<open>[^\[\]]\<close> (any character but a
  bracket, the backslash included), \<^verbatim>\<open>\\(\\\\)*[\[\]]\<close> (a bracket after an odd run of
  backslashes) and \<^verbatim>\<open>\\+[^\[\]]\<close>. The first alternative is tried first, so the
  matcher reads single characters up to the first bracket and tries the rest of the
  expression there; it goes past that bracket only when the rest fails and a backslash
  stands right before the bracket (the second alternative then takes both), and goes on
  in the same way to the next bracket. \<open>link_scan\<close> reads the subject after \<^verbatim>\<open>[[\<close>;
  \<open>k\<close> counts the characters read and \<open>esc\<close> says that the last one is a backslash. The
  result is the length of the target and the length of the description.
\<close>

fun link_scan :: "string \<Rightarrow> nat \<Rightarrow> bool \<Rightarrow> (nat \<times> nat option) option" where
  "link_scan [] k esc = None"
| "link_scan (c # cs) k esc =
     (if c = CHR ''['' \<or> c = CHR '']'' then
        (case (if c = CHR '']'' \<and> 1 \<le> k then link_tail cs else None) of
           Some t \<Rightarrow> Some (k, t)
         | None \<Rightarrow> if esc then link_scan cs (Suc k) False else None)
      else link_scan cs (Suc k) (c = CHR 0x5C))"

text \<open>The match with its named groups, for a subject \<open>s\<close> that starts with \<^verbatim>\<open>[[\<close>.\<close>

definition link_match :: "nat \<Rightarrow> string \<Rightarrow> nat \<Rightarrow> nat option \<Rightarrow> rmatch" where
  "link_match i s k t =
     \<lparr>m_index = i,
      m_whole = take (case t of None \<Rightarrow> k + 4 | Some n \<Rightarrow> k + n + 6) s,
      m_groups = (\<lambda>g.
        if g = ''link'' then Some (take k (drop 2 s))
        else if g = ''text'' then map_option (\<lambda>n. take n (drop (k + 4) s)) t
        else None)\<rparr>"

text \<open>The leftmost match: the start positions are tried from the left.\<close>

fun linkBracket_from :: "nat \<Rightarrow> string \<Rightarrow> rmatch option" where
  "linkBracket_from i [] = None"
| "linkBracket_from i (c # cs) =
     (case (if c = CHR ''['' then
              (case cs of d # t \<Rightarrow> if d = CHR ''['' then link_scan t 0 False else None
                        | [] \<Rightarrow> None)
            else None) of
        Some (k, t) \<Rightarrow> Some (link_match i (c # cs) k t)
      | None \<Rightarrow> linkBracket_from (Suc i) cs)"

definition linkBracketRe :: regex where
  "linkBracketRe s = linkBracket_from 0 s"

text \<open>
  \<^verbatim>\<open>/(.+?):/\<close>, matched against the target for the link type: from the leftmost start
  that allows it, the shortest non-empty run without a line terminator that a colon
  follows is group 1.
\<close>

fun scheme_len :: "string \<Rightarrow> nat option" where
  "scheme_len [] = None"
| "scheme_len (c # cs) =
     (if is_line_terminator c then None
      else case cs of
             d # _ \<Rightarrow> if d = CHR '':'' then Some 1 else map_option Suc (scheme_len cs)
           | [] \<Rightarrow> None)"

fun linkType_from :: "nat \<Rightarrow> string \<Rightarrow> rmatch option" where
  "linkType_from i [] = None"
| "linkType_from i (c # cs) =
     (case scheme_len (c # cs) of
        Some n \<Rightarrow>
          Some \<lparr>m_index = i, m_whole = take (Suc n) (c # cs),
                m_groups = (\<lambda>g. if g = ''1'' then Some (take n (c # cs)) else None)\<rparr>
      | None \<Rightarrow> linkType_from (Suc i) cs)"

definition re_linkType :: regex where
  "re_linkType s = linkType_from 0 s"

section \<open>The Reader\<close>

text \<open>
  Modelled from the spec: the class \<^verbatim>\<open>Reader\<close> (\<^verbatim>\<open>src/org/reader.ts\<close>) is imported by
  the parser and is not among the sources. The record and the operations below follow
  the contract of section 4.1 of the specification: a cursor over an immutable buffer, a
  visible window and a stack of narrowed windows, each entry holding the window and the
  cursor that \<^verbatim>\<open>narrow\<close> replaced.
\<close>

record reader =
  r_text :: string
  r_offset :: nat
  r_begin :: nat
  r_end :: nat
  r_narrows :: "(nat \<times> nat \<times> nat) list"

text \<open>Modelled from the spec: \<^verbatim>\<open>new Reader(text)\<close>, the window is the whole buffer.\<close>

definition Reader :: "string \<Rightarrow> reader" where
  "Reader t = \<lparr>r_text = t, r_offset = 0, r_begin = 0, r_end = length t, r_narrows = []\<rparr>"

text \<open>Modelled from the spec: \<^verbatim>\<open>offset()\<close>, the current absolute position.\<close>

definition offset :: "reader \<Rightarrow> nat" where
  "offset r = r_offset r"

text \<open>Modelled from the spec: \<^verbatim>\<open>endOffset()\<close>, the current visible end.\<close>

definition endOffset :: "reader \<Rightarrow> nat" where
  "endOffset r = r_end r"

text \<open>Modelled from the spec: \<^verbatim>\<open>eof()\<close> is \<^verbatim>\<open>offset() == endOffset()\<close>.\<close>

definition eof :: "reader \<Rightarrow> bool" where
  "eof r = (offset r = endOffset r)"

text \<open>Modelled from the spec: \<^verbatim>\<open>rest()\<close>, the visible bytes from the cursor to the end.\<close>

definition rest :: "reader \<Rightarrow> string" where
  "rest r = drop (r_offset r) (take (r_end r) (r_text r))"

text \<open>Modelled from the spec: \<^verbatim>\<open>peek(n)\<close>, the next \<open>n\<close> visible bytes, fewer at the end.\<close>

definition peek :: "reader \<Rightarrow> nat \<Rightarrow> string" where
  "peek r n = take n (rest r)"

text \<open>
  Modelled from the spec: \<^verbatim>\<open>line()\<close>, the bytes from the cursor through the next
  newline inclusive, or through the end if no newline remains.
\<close>

fun upto_newline :: "string \<Rightarrow> string" where
  "upto_newline [] = []"
| "upto_newline (c # cs) = (if c = CHR 0x0A then [c] else c # upto_newline cs)"

definition line :: "reader \<Rightarrow> string" where
  "line r = upto_newline (rest r)"

text \<open>
  Modelled from the spec: \<^verbatim>\<open>match(regex)\<close> matches the expression against the visible
  slice that starts at the cursor; the index of the match is relative to the slice.
\<close>

definition match :: "reader \<Rightarrow> regex \<Rightarrow> rmatch option" where
  "match r re = re (rest r)"

text \<open>
  Modelled from the spec: \<^verbatim>\<open>advance(n_or_match)\<close> moves the cursor forward by a byte
  count, or by \<^verbatim>\<open>match.index + match[0].length\<close>. The parser also passes the result of
  a failed match (\<^verbatim>\<open>null\<close>) before it tests it, and a string (a line): the cursor stays
  for \<^verbatim>\<open>null\<close> and moves by the length of the string.
\<close>

definition advance :: "reader \<Rightarrow> nat \<Rightarrow> reader" where
  "advance r n = r\<lparr>r_offset := r_offset r + n\<rparr>"

definition advance_string :: "reader \<Rightarrow> string \<Rightarrow> reader" where
  "advance_string r s = advance r (length s)"

definition advance_match :: "reader \<Rightarrow> rmatch option \<Rightarrow> reader" where
  "advance_match r m =
     (case m of None \<Rightarrow> r | Some x \<Rightarrow> advance r (m_index x + length (m_whole x)))"

text \<open>Modelled from the spec: \<^verbatim>\<open>resetOffset(abs)\<close> sets the cursor to an absolute offset.\<close>

definition resetOffset :: "reader \<Rightarrow> nat \<Rightarrow> reader" where
  "resetOffset r a = r\<lparr>r_offset := a\<rparr>"

text \<open>
  Modelled from the spec: \<^verbatim>\<open>substring(a, b)\<close>, the bytes from \<open>a\<close> up to \<open>b\<close> of the
  underlying buffer regardless of the window.
\<close>

definition substring :: "reader \<Rightarrow> nat \<Rightarrow> nat \<Rightarrow> string" where
  "substring r a b = drop a (take b (r_text r))"

text \<open>
  Modelled from the spec: \<^verbatim>\<open>narrow(begin, end)\<close> pushes the current window and replaces
  it, repositioning the cursor to \<open>begin\<close>; \<^verbatim>\<open>widen(preservePosition)\<close> pops the window
  and restores the cursor to the value it held when \<^verbatim>\<open>narrow\<close> was called, unless the
  position is preserved.
\<close>

definition narrow :: "reader \<Rightarrow> nat \<Rightarrow> nat \<Rightarrow> reader" where
  "narrow r b e =
     r\<lparr>r_offset := b, r_begin := b, r_end := e,
       r_narrows := (r_begin r, r_end r, r_offset r) # r_narrows r\<rparr>"

definition widen :: "reader \<Rightarrow> bool \<Rightarrow> reader" where
  "widen r preservePosition =
     (case r_narrows r of
        [] \<Rightarrow> r
      | (b, e, saved) # ns \<Rightarrow>
          r\<lparr>r_offset := (if preservePosition then r_offset r else saved),
            r_begin := b, r_end := e, r_narrows := ns\<rparr>)"

section \<open>The syntax tree\<close>

text \<open>
  An entry of the list structure that \<^verbatim>\<open>parseListStructure\<close> builds
  (\<^verbatim>\<open>ListStructureItem\<close>); a capture group that did not take part is \<open>None\<close>.
\<close>

record list_item =
  li_begin :: nat
  li_indent :: nat
  li_bullet :: "string option"
  li_counter :: "string option"
  li_checkbox :: "string option"
  li_tag :: "string option"
  li_end :: nat

text \<open>
  The nodes the parser builds with \<^verbatim>\<open>u(type, props, children)\<close>. The position fields
  are \<open>contentsBegin\<close> and \<open>contentsEnd\<close>, in this order; the children come last.
\<close>

datatype node =
    Text string
  | Link string string "node list"
  | OrgData nat nat "node list"
  | Headline nat string "node list" nat nat "node list"
  | Section nat nat "node list"
  | Paragraph nat nat "node list"
  | PlainList nat nat nat "list_item list" "node list"
  | Item nat "string option" "string option" nat nat "node list"

section \<open>Sections\<close>

text \<open>\<^verbatim>\<open>Parser.atHeading\<close>.\<close>

definition atHeading :: "reader \<Rightarrow> bool" where
  "atHeading r = (match r re_atHeading \<noteq> None)"

text \<open>\<^verbatim>\<open>Parser.parseSection\<close>; the result is the node and the reader after the call.\<close>

definition parseSection :: "reader \<Rightarrow> node \<times> reader" where
  "parseSection r =
     (let begin = offset r;
          m = match r re_sectionEnd;
          end = (case m of Some x \<Rightarrow> begin + m_index x | None \<Rightarrow> endOffset r)
      in (Section begin end [], resetOffset r end))"

section \<open>The imported tables\<close>

text \<open>
  The parser imports its regular expressions and tables from \<^verbatim>\<open>./parser/utils\<close>, which
  is not among the sources. They are parameters of the model:
  \<^item> \<open>linkPlainRe\<close> stands for the alternative that \<^verbatim>\<open>linkPlainRe()\<close> adds to the object
    expression: whether it matches the subject at the given index;
  \<^item> \<open>itemRe\<close>, \<open>fullItemRe\<close>, \<open>paragraphSeparateRe\<close> and \<open>listEndRe\<close> are the expressions
    the functions of these names return;
  \<^item> \<open>restriction\<close> gives the members of the set \<^verbatim>\<open>restriction(type)\<close>;
  \<^item> \<open>greaterElements\<close> lists the members of the set \<^verbatim>\<open>greaterElements\<close>.
\<close>

record utils =
  linkPlainRe :: "string \<Rightarrow> nat \<Rightarrow> bool"
  itemRe :: regex
  fullItemRe :: regex
  paragraphSeparateRe :: regex
  listEndRe :: regex
  restriction :: "string \<Rightarrow> string list"
  greaterElements :: "string list"

section \<open>Results\<close>

text \<open>
  The errors the parser raises: its own \<^verbatim>\<open>Error\<close>s, by message, and the \<^verbatim>\<open>TypeError\<close>
  of the language (a property read from \<^verbatim>\<open>null\<close> or \<^verbatim>\<open>undefined\<close>, a call of
  something that is not a function).
\<close>

datatype error =
    NoProgress
  | NoProgressElements
  | ParseListCannotFindItem
  | ParseItemFullItemReFailed
  | FullItemReDidNotMatch
  | TypeError

text \<open>
  A call returns a value (\<open>Ret\<close>), throws (\<open>Throw\<close>), or has not returned when the fuel
  of the model is used up (\<open>OutOfFuel\<close>): every loop whose end depends on the input, and
  every descent, takes one unit of fuel.
\<close>

datatype 'a result = OutOfFuel | Throw error | Ret 'a

section \<open>Blank lines and paragraphs\<close>

text \<open>
  \<^verbatim>\<open>Parser.parseEmptyLines\<close>, with the loop of \<^verbatim>\<open>Parser.parseMulti\<close>: a line that is white
  space only is consumed and collected; the loop ends at the first other line, and also
  at the empty line the reader gives at the end of the window, since the empty string is
  not truthy.
\<close>

function parseEmptyLines_loop :: "reader \<Rightarrow> string list \<Rightarrow> string list \<times> reader" where
  "parseEmptyLines_loop r result =
     (if length (trim (line r)) = 0 then
        (if line r = [] then (result, advance r (length (line r)))
         else parseEmptyLines_loop (advance r (length (line r))) (result @ [line r]))
      else (result, r))"
  by pat_completeness auto
termination
proof (relation "measure (\<lambda>(r, result). length (rest r))")
  show "wf (measure (\<lambda>(r, result). length (rest r)))"
    by simp
next
  fix r :: reader and result :: "string list"
  assume "line r \<noteq> []"
  moreover have "upto_newline s \<noteq> [] \<Longrightarrow> s \<noteq> []" for s
    by (cases s) auto
  ultimately have "0 < length (line r)" and "0 < length (rest r)"
    by (auto simp: line_def)
  moreover have "length (rest (advance r n)) = length (rest r) - n" for n
    by (simp add: rest_def advance_def)
  ultimately show
    "((advance r (length (line r)), result @ [line r]), (r, result))
       \<in> measure (\<lambda>(r, result). length (rest r))"
    by simp
qed

definition parseEmptyLines :: "reader \<Rightarrow> string list \<times> reader" where
  "parseEmptyLines r = parseEmptyLines_loop r []"

text \<open>\<^verbatim>\<open>Parser.parseParagraph\<close>.\<close>

definition parseParagraph :: "utils \<Rightarrow> reader \<Rightarrow> node \<times> reader" where
  "parseParagraph u r =
     (let contentsBegin = offset r;
          next = match r (paragraphSeparateRe u);
          contentsEnd = (case next of Some m \<Rightarrow> contentsBegin + m_index m | None \<Rightarrow> endOffset r);
          r1 = resetOffset r contentsEnd;
          r2 = snd (parseEmptyLines r1)
      in (Paragraph contentsBegin contentsEnd [], r2))"

section \<open>Lists\<close>

text \<open>
  The loop of \<^verbatim>\<open>Parser.parseList\<close>: from \<open>pos\<close>, hop to the end of the first entry that
  begins at \<open>pos\<close> with the indent of the list, until no entry does.
\<close>

fun parseList_loop :: "nat \<Rightarrow> list_item list \<Rightarrow> nat \<Rightarrow> nat \<Rightarrow> nat result" where
  "parseList_loop 0 structure indent pos = OutOfFuel"
| "parseList_loop (Suc fuel) structure indent pos =
     (case find (\<lambda>x. li_begin x = pos \<and> li_indent x = indent) structure of
        None \<Rightarrow> Ret pos
      | Some next \<Rightarrow> parseList_loop fuel structure indent (li_end next))"

text \<open>\<^verbatim>\<open>Parser.parseList\<close>.\<close>

definition parseList :: "nat \<Rightarrow> list_item list \<Rightarrow> reader \<Rightarrow> (node \<times> reader) result" where
  "parseList fuel structure r =
     (let contentsBegin = offset r in
      case find (\<lambda>x. li_begin x = contentsBegin) structure of
        None \<Rightarrow> Throw ParseListCannotFindItem
      | Some item \<Rightarrow>
          (case parseList_loop fuel structure (li_indent item) (li_end item) of
             OutOfFuel \<Rightarrow> OutOfFuel
           | Throw e \<Rightarrow> Throw e
           | Ret contentsEnd \<Rightarrow>
               Ret (PlainList (li_indent item) contentsBegin contentsEnd structure [],
                    resetOffset r contentsEnd)))"

text \<open>
  \<^verbatim>\<open>Parser.parseItem\<close>. The structure is \<open>None\<close> when the caller has none
  (\<^verbatim>\<open>undefined\<close>); reading \<^verbatim>\<open>find\<close> of it, or \<^verbatim>\<open>end\<close> of an entry that was not found,
  is a \<^verbatim>\<open>TypeError\<close>.
\<close>

definition checkbox_of :: "string option \<Rightarrow> string option" where
  "checkbox_of c =
     (if c = Some ''[ ]'' then Some ''off''
      else if c = Some ''[x]'' \<or> c = Some ''[X]'' then Some ''on''
      else if c = Some ''[-]'' then Some ''trans''
      else None)"

definition parseItem :: "utils \<Rightarrow> list_item list option \<Rightarrow> reader \<Rightarrow> (node \<times> reader) result" where
  "parseItem u structure r =
     (let offset0 = offset r;
          m = match r (fullItemRe u);
          r1 = advance_match r m
      in case m of
           None \<Rightarrow> Throw ParseItemFullItemReFailed
         | Some mm \<Rightarrow>
             (case structure of
                None \<Rightarrow> Throw TypeError
              | Some st \<Rightarrow>
                  (case find (\<lambda>x. li_begin x = offset0) st of
                     None \<Rightarrow> Throw TypeError
                   | Some item \<Rightarrow>
                       Ret (Item (li_indent item) (m_groups mm ''bullet'')
                              (checkbox_of (m_groups mm ''checkbox''))
                              (offset r1) (li_end item) [],
                            resetOffset r1 (li_end item)))))"

subsection \<open>The list structure\<close>

text \<open>
  The inner loops of \<^verbatim>\<open>Parser.parseListStructure\<close> that end the previous siblings: the
  open items are popped from the end of \<open>items\<close> while their indent is at least
  \<open>indent\<close>; each gets the end \<open>pos\<close> and is pushed on \<open>struct\<close>, in the order of the pops.
\<close>

definition closeItems ::
  "list_item list \<Rightarrow> list_item list \<Rightarrow> nat \<Rightarrow> nat \<Rightarrow> list_item list \<times> list_item list" where
  "closeItems items struct indent pos =
     (rev (dropWhile (\<lambda>x. indent \<le> li_indent x) (rev items)),
      struct @ map (\<lambda>x. x\<lparr>li_end := pos\<rparr>) (takeWhile (\<lambda>x. indent \<le> li_indent x) (rev items)))"

text \<open>The main loop of \<^verbatim>\<open>Parser.parseListStructure\<close>, up to its \<^verbatim>\<open>break\<close>.\<close>

fun parseListStructure_loop ::
  "nat \<Rightarrow> utils \<Rightarrow> list_item list \<Rightarrow> list_item list \<Rightarrow> reader \<Rightarrow>
   (list_item list \<times> list_item list \<times> reader) result" where
  "parseListStructure_loop 0 u items struct r = OutOfFuel"
| "parseListStructure_loop (Suc fuel) u items struct r =
     (if eof r \<or> (case match r (listEndRe u) of Some m \<Rightarrow> m_index m = 0 | None \<Rightarrow> False)
      then Ret (items, struct, r)
      else
        case match r (itemRe u) of
          Some m \<Rightarrow>
            (case m_groups m ''indent'' of
               None \<Rightarrow> Throw TypeError
             | Some ind \<Rightarrow>
                 (case match r (fullItemRe u) of
                    None \<Rightarrow> Throw FullItemReDidNotMatch
                  | Some fullM \<Rightarrow>
                      parseListStructure_loop fuel u
                        (fst (closeItems items struct (length ind) (offset r)) @
                           [\<lparr>li_begin = offset r, li_indent = length ind,
                             li_bullet = m_groups fullM ''bullet'',
                             li_counter = m_groups fullM ''counter'',
                             li_checkbox = m_groups fullM ''checkbox'',
                             li_tag = m_groups fullM ''tag'',
                             li_end = offset r\<rparr>])
                        (snd (closeItems items struct (length ind) (offset r)))
                        (advance_string r (line r))))
        | None \<Rightarrow>
            if match r re_blankRest \<noteq> None
            then parseListStructure_loop fuel u items struct (advance_string r (line r))
            else
              (case match r re_leadingBlank of
                 None \<Rightarrow> Throw TypeError
               | Some im \<Rightarrow>
                   if fst (closeItems items struct (length (m_whole im)) (offset r)) = []
                   then Ret (fst (closeItems items struct (length (m_whole im)) (offset r)),
                             snd (closeItems items struct (length (m_whole im)) (offset r)), r)
                   else parseListStructure_loop fuel u
                          (fst (closeItems items struct (length (m_whole im)) (offset r)))
                          (snd (closeItems items struct (length (m_whole im)) (offset r)))
                          (advance_string r (line r))))"

text \<open>
  \<^verbatim>\<open>Parser.parseListStructure\<close>: after the loop the blank lines are consumed, the open
  items are closed at the cursor and the entries are sorted by \<open>begin\<close> (the sort of an
  array is stable).
\<close>

definition parseListStructure :: "nat \<Rightarrow> utils \<Rightarrow> reader \<Rightarrow> (list_item list \<times> reader) result" where
  "parseListStructure fuel u r =
     (case parseListStructure_loop fuel u [] [] r of
        OutOfFuel \<Rightarrow> OutOfFuel
      | Throw e \<Rightarrow> Throw e
      | Ret (items, struct, r1) \<Rightarrow>
          (let r2 = snd (parseEmptyLines r1);
               end = offset r2
           in Ret (sort_key li_begin (struct @ map (\<lambda>x. x\<lparr>li_end := end\<rparr>) items), r2)))"

section \<open>Objects\<close>

text \<open>
  The object expression of \<^verbatim>\<open>Parser.parseObjects\<close>, \<^verbatim>\<open>\[(?:\[)\<close> or the plain link of
  \<^verbatim>\<open>linkPlainRe()\<close>: the leftmost index of the subject \<open>s\<close> at which one of the two
  matches. \<^verbatim>\<open>parseObjects\<close> reads the index of the match only. \<open>cs\<close> is the subject
  from index \<open>i\<close> on.
\<close>

fun objectRegexp_from :: "utils \<Rightarrow> string \<Rightarrow> nat \<Rightarrow> string \<Rightarrow> nat option" where
  "objectRegexp_from u s i [] = (if linkPlainRe u s i then Some i else None)"
| "objectRegexp_from u s i (c # cs) =
     (if (c = CHR ''['' \<and> (case cs of [] \<Rightarrow> False | d # _ \<Rightarrow> d = CHR ''[''))
         \<or> linkPlainRe u s i
      then Some i
      else objectRegexp_from u s (Suc i) cs)"

definition objectRegexp :: "utils \<Rightarrow> string \<Rightarrow> nat option" where
  "objectRegexp u s = objectRegexp_from u s 0 s"

text \<open>
  The value \<^verbatim>\<open>parseObjects\<close> receives as its restriction: a set, given by its members,
  or the string that \<^verbatim>\<open>parseLink\<close> passes (\<^verbatim>\<open>this.parseObjects('link')\<close>). A string has
  no method \<^verbatim>\<open>has\<close>, so the call \<^verbatim>\<open>restriction.has('link')\<close> on it is a \<^verbatim>\<open>TypeError\<close>.
\<close>

datatype restr = RSet "string list" | RString string

text \<open>
  A capture group that takes part in every match of its expression (group 1 of the link
  type and of the plain link, \<open>link\<close> of the bracket link).
\<close>

definition group_of :: "rmatch \<Rightarrow> string \<Rightarrow> string" where
  "group_of m g = (case m_groups m g of Some x \<Rightarrow> x | None \<Rightarrow> [])"

text \<open>
  \<^verbatim>\<open>Parser.parseObjects\<close> (\<open>parseObjects_loop\<close> is its loop, with the objects collected so
  far and \<^verbatim>\<open>prevOffset\<close>), \<^verbatim>\<open>Parser.parseObject\<close> and \<^verbatim>\<open>Parser.parseLink\<close>. An object
  parser returns the node, or \<open>None\<close> for \<^verbatim>\<open>null\<close>, and the reader after the call.
\<close>

fun parseObjects :: "nat \<Rightarrow> utils \<Rightarrow> restr \<Rightarrow> reader \<Rightarrow> (node list \<times> reader) result"
  and parseObjects_loop ::
    "nat \<Rightarrow> utils \<Rightarrow> restr \<Rightarrow> node list \<Rightarrow> int \<Rightarrow> reader \<Rightarrow> (node list \<times> reader) result"
  and parseObject :: "nat \<Rightarrow> utils \<Rightarrow> restr \<Rightarrow> reader \<Rightarrow> (node option \<times> reader) result"
  and parseLink :: "nat \<Rightarrow> utils \<Rightarrow> reader \<Rightarrow> (node option \<times> reader) result"
where
  "parseObjects fuel u restr r =
     (case parseObjects_loop fuel u restr [] (- 1) r of
        OutOfFuel \<Rightarrow> OutOfFuel
      | Throw e \<Rightarrow> Throw e
      | Ret (objects, r1) \<Rightarrow>
          Ret (if length (trim (rest r1)) \<noteq> 0 then objects @ [Text (rest r1)] else objects,
               advance r1 (length (rest r1))))"
| "parseObjects_loop 0 u restr objects prevOffset r = OutOfFuel"
| "parseObjects_loop (Suc fuel) u restr objects prevOffset r =
     (if prevOffset = int (offset r) then Throw NoProgress
      else
        case objectRegexp u (rest r) of
          None \<Rightarrow> Ret (objects, r)
        | Some index \<Rightarrow>
            (case parseObject fuel u restr (if index \<noteq> 0 then advance r index else r) of
               OutOfFuel \<Rightarrow> OutOfFuel
             | Throw e \<Rightarrow> Throw e
             | Ret (ob, r2) \<Rightarrow>
                 parseObjects_loop fuel u restr
                   ((if index \<noteq> 0 then objects @ [Text (peek r index)] else objects) @
                    (case ob of None \<Rightarrow> [] | Some x \<Rightarrow> [x]))
                   (int (offset r)) r2))"
| "parseObject fuel u restr r =
     (if take 1 (peek r 2) = ''['' then
        (if peek r 2 = ''[['' then
           (case restr of
              RString _ \<Rightarrow> Throw TypeError
            | RSet xs \<Rightarrow> if ''link'' \<in> set xs then parseLink fuel u r else Ret (None, r))
         else Ret (None, r))
      else
        (case restr of
           RString _ \<Rightarrow> Throw TypeError
         | RSet xs \<Rightarrow> if ''link'' \<in> set xs then parseLink fuel u r else Ret (None, r)))"
| "parseLink fuel u r =
     (if peek r 1 = ''['' then
        (case match r linkBracketRe of
           None \<Rightarrow> Ret (None, advance_match r None)
         | Some m \<Rightarrow>
             (case (case m_groups m ''text'' of
                      None \<Rightarrow> Ret ([], advance_match r (Some m))
                    | Some text \<Rightarrow>
                        if text = [] then Ret ([], advance_match r (Some m))
                        else
                          (case parseObjects fuel u (RString ''link'')
                                  (narrow (advance_match r (Some m))
                                     (offset r + 2 + length (group_of m ''link'') + 2)
                                     (offset r + 2 + length (group_of m ''link'') + 2 + length text)) of
                             OutOfFuel \<Rightarrow> OutOfFuel
                           | Throw e \<Rightarrow> Throw e
                           | Ret (children, r2) \<Rightarrow> Ret (children, widen r2 False))) of
                OutOfFuel \<Rightarrow> OutOfFuel
              | Throw e \<Rightarrow> Throw e
              | Ret (children, r3) \<Rightarrow>
                  Ret (Some (Link (case re_linkType (group_of m ''link'') of
                                     Some t \<Rightarrow> group_of t ''1''
                                   | None \<Rightarrow> ''fuzzy'')
                               (group_of m ''link'') children),
                       r3)))
      else
        (case match r re_plainLink of
           None \<Rightarrow> Ret (None, advance_match r None)
         | Some m \<Rightarrow>
             Ret (Some (Link (group_of m ''1'') (m_whole m) []), advance_match r (Some m))))"

section \<open>Elements\<close>

text \<open>The type \<^verbatim>\<open>ParseMode\<close>; \<open>ModeNull\<close> is \<^verbatim>\<open>null\<close>.\<close>

datatype parseMode =
    ModeFirstSection
  | ModeItem
  | ModeNodeProperty
  | ModePlanning
  | ModePropertyDrawer
  | ModeSection
  | ModeTableRow
  | ModeTopComment
  | ModeNull

text \<open>\<^verbatim>\<open>Parser.nextMode\<close>.\<close>

definition nextMode :: "parseMode \<Rightarrow> string \<Rightarrow> bool \<Rightarrow> parseMode" where
  "nextMode mode type parent =
     (if parent then
        (if type = ''headline'' then ModeSection
         else if mode = ModeFirstSection \<and> type = ''section'' then ModeTopComment
         else if type = ''inlinetask'' then ModePlanning
         else if type = ''plain-list'' then ModeItem
         else if type = ''property-drawer'' then ModeNodeProperty
         else if type = ''section'' then ModePlanning
         else if type = ''table'' then ModeTableRow
         else ModeNull)
      else
        (if mode = ModeItem then ModeItem
         else if mode = ModeNodeProperty then ModeNodeProperty
         else if mode = ModePlanning \<and> type = ''planning'' then ModePropertyDrawer
         else if mode = ModeTableRow then ModeTableRow
         else if mode = ModeTopComment \<and> type = ''comment'' then ModePropertyDrawer
         else ModeNull))"

text \<open>
  The fields of a node that \<^verbatim>\<open>Parser.parseElements\<close> reads and writes: \<^verbatim>\<open>type\<close>,
  \<^verbatim>\<open>contentsBegin\<close>, \<^verbatim>\<open>contentsEnd\<close> and \<^verbatim>\<open>structure\<close> (\<open>None\<close> is \<^verbatim>\<open>undefined\<close>), and
  the assignment to \<^verbatim>\<open>children\<close>.
\<close>

fun node_type :: "node \<Rightarrow> string" where
  "node_type (Text v) = ''text''"
| "node_type (Link t l cs) = ''link''"
| "node_type (OrgData b e cs) = ''org-data''"
| "node_type (Headline lv raw title b e cs) = ''headline''"
| "node_type (Section b e cs) = ''section''"
| "node_type (Paragraph b e cs) = ''paragraph''"
| "node_type (PlainList ind b e st cs) = ''plain-list''"
| "node_type (Item ind bu cb b e cs) = ''item''"

fun contentsBegin :: "node \<Rightarrow> nat option" where
  "contentsBegin (Text v) = None"
| "contentsBegin (Link t l cs) = None"
| "contentsBegin (OrgData b e cs) = Some b"
| "contentsBegin (Headline lv raw title b e cs) = Some b"
| "contentsBegin (Section b e cs) = Some b"
| "contentsBegin (Paragraph b e cs) = Some b"
| "contentsBegin (PlainList ind b e st cs) = Some b"
| "contentsBegin (Item ind bu cb b e cs) = Some b"

fun contentsEnd :: "node \<Rightarrow> nat option" where
  "contentsEnd (Text v) = None"
| "contentsEnd (Link t l cs) = None"
| "contentsEnd (OrgData b e cs) = Some e"
| "contentsEnd (Headline lv raw title b e cs) = Some e"
| "contentsEnd (Section b e cs) = Some e"
| "contentsEnd (Paragraph b e cs) = Some e"
| "contentsEnd (PlainList ind b e st cs) = Some e"
| "contentsEnd (Item ind bu cb b e cs) = Some e"

fun structure_of :: "node \<Rightarrow> list_item list option" where
  "structure_of (PlainList ind b e st cs) = Some st"
| "structure_of n = None"

fun children_of :: "node \<Rightarrow> node list" where
  "children_of (Text v) = []"
| "children_of (Link t l cs) = cs"
| "children_of (OrgData b e cs) = cs"
| "children_of (Headline lv raw title b e cs) = cs"
| "children_of (Section b e cs) = cs"
| "children_of (Paragraph b e cs) = cs"
| "children_of (PlainList ind b e st cs) = cs"
| "children_of (Item ind bu cb b e cs) = cs"

fun set_children :: "node \<Rightarrow> node list \<Rightarrow> node" where
  "set_children (Text v) cs' = Text v"
| "set_children (Link t l cs) cs' = Link t l cs'"
| "set_children (OrgData b e cs) cs' = OrgData b e cs'"
| "set_children (Headline lv raw title b e cs) cs' = Headline lv raw title b e cs'"
| "set_children (Section b e cs) cs' = Section b e cs'"
| "set_children (Paragraph b e cs) cs' = Paragraph b e cs'"
| "set_children (PlainList ind b e st cs) cs' = PlainList ind b e st cs'"
| "set_children (Item ind bu cb b e cs) cs' = Item ind bu cb b e cs'"

text \<open>
  \<^verbatim>\<open>Parser.parseHeadline\<close>. The match of the stars is asserted non-null in the source;
  reading group 1 of \<^verbatim>\<open>null\<close> is a \<^verbatim>\<open>TypeError\<close>.
\<close>

definition parseHeadline :: "nat \<Rightarrow> utils \<Rightarrow> reader \<Rightarrow> (node \<times> reader) result" where
  "parseHeadline fuel u r =
     (case match r re_stars of
        None \<Rightarrow> Throw TypeError
      | Some stars \<Rightarrow>
          (let r1 = advance_match r (Some stars);
               level = length (group_of stars ''1'');
               titleMatch = match r1 re_title;
               titleStart = offset r1;
               titleEnd = titleStart + (case titleMatch of Some t \<Rightarrow> length (m_whole t) | None \<Rightarrow> 0);
               rawValue = substring r1 titleStart titleEnd;
               r2 = advance_match r1 titleMatch
           in case parseObjects fuel u (RSet (restriction u ''headline''))
                     (narrow r2 titleStart titleEnd) of
                OutOfFuel \<Rightarrow> OutOfFuel
              | Throw e \<Rightarrow> Throw e
              | Ret (title, r3) \<Rightarrow>
                  (let r4 = widen r3 False;
                       r5 = advance_string r4 (line r4);
                       r6 = snd (parseEmptyLines r5);
                       contentsBegin = offset r6;
                       endOfSubtree = match r6 (re_endOfSubtree level);
                       contentsEnd = (case endOfSubtree of
                                        Some m \<Rightarrow> contentsBegin + m_index m
                                      | None \<Rightarrow> endOffset r6)
                   in Ret (Headline level rawValue title contentsBegin contentsEnd [],
                           resetOffset r6 contentsEnd))))"

text \<open>\<^verbatim>\<open>Parser.parseElement\<close>; the structure is \<open>None\<close> when the caller passes none.\<close>

definition parseElement ::
  "nat \<Rightarrow> utils \<Rightarrow> parseMode \<Rightarrow> list_item list option \<Rightarrow> reader \<Rightarrow> (node \<times> reader) result" where
  "parseElement fuel u mode structure r =
     (if mode = ModeItem then parseItem u structure r
      else if atHeading r then parseHeadline fuel u r
      else if mode = ModeSection then Ret (parseSection r)
      else if mode = ModeFirstSection then
        (let nextHeading = match r re_nextHeading;
             r1 = narrow r (offset r)
                    (case nextHeading of Some m \<Rightarrow> offset r + m_index m | None \<Rightarrow> endOffset r);
             (result, r2) = parseSection r1
         in Ret (result, widen r2 True))
      else if match r (itemRe u) \<noteq> None then
        (case structure of
           Some st \<Rightarrow> parseList fuel st r
         | None \<Rightarrow>
             (case parseListStructure fuel u r of
                OutOfFuel \<Rightarrow> OutOfFuel
              | Throw e \<Rightarrow> Throw e
              | Ret (st, r1) \<Rightarrow> parseList fuel st (resetOffset r1 (offset r))))
      else Ret (parseParagraph u r))"

text \<open>
  \<^verbatim>\<open>Parser.parseElements\<close>; \<open>parseElements_loop\<close> is its loop, with the current mode, the
  elements collected so far and \<^verbatim>\<open>prevOffset\<close>.
\<close>

fun parseElements_loop ::
  "nat \<Rightarrow> utils \<Rightarrow> parseMode \<Rightarrow> list_item list option \<Rightarrow> node list \<Rightarrow> int \<Rightarrow> reader \<Rightarrow>
   (node list \<times> reader) result" where
  "parseElements_loop 0 u mode structure elements prevOffset r = OutOfFuel"
| "parseElements_loop (Suc fuel) u mode structure elements prevOffset r =
     (if eof r then Ret (elements, r)
      else if int (offset r) = prevOffset then Throw NoProgressElements
      else
        case parseElement fuel u mode structure r of
          OutOfFuel \<Rightarrow> OutOfFuel
        | Throw e \<Rightarrow> Throw e
        | Ret (element, r1) \<Rightarrow>
            (case (case (contentsBegin element, contentsEnd element) of
                     (Some cbeg, Some cend) \<Rightarrow>
                       if node_type element \<in> set (greaterElements u) then
                         (case parseElements_loop fuel u
                                 (nextMode mode (node_type element) True)
                                 (case structure of Some st \<Rightarrow> Some st
                                                  | None \<Rightarrow> structure_of element)
                                 [] (- 1) (narrow r1 cbeg cend) of
                            OutOfFuel \<Rightarrow> OutOfFuel
                          | Throw e \<Rightarrow> Throw e
                          | Ret (children, r2) \<Rightarrow>
                              Ret (set_children element children, widen r2 False))
                       else
                         (case parseObjects fuel u (RSet (restriction u (node_type element)))
                                 (narrow r1 cbeg cend) of
                            OutOfFuel \<Rightarrow> OutOfFuel
                          | Throw e \<Rightarrow> Throw e
                          | Ret (children, r2) \<Rightarrow>
                              Ret (set_children element children, widen r2 False))
                   | _ \<Rightarrow> Ret (element, r1)) of
               OutOfFuel \<Rightarrow> OutOfFuel
             | Throw e \<Rightarrow> Throw e
             | Ret (element', r3) \<Rightarrow>
                 parseElements_loop fuel u (nextMode mode (node_type element) False) structure
                   (elements @ [element']) (int (offset r)) r3))"

definition parseElements ::
  "nat \<Rightarrow> utils \<Rightarrow> parseMode \<Rightarrow> list_item list option \<Rightarrow> reader \<Rightarrow> (node list \<times> reader) result" where
  "parseElements fuel u mode structure r = parseElements_loop fuel u mode structure [] (- 1) r"

text \<open>\<^verbatim>\<open>Parser.parse\<close> on \<^verbatim>\<open>new Parser(text)\<close>, the exported function \<^verbatim>\<open>parse\<close>.\<close>

definition parse :: "nat \<Rightarrow> utils \<Rightarrow> string \<Rightarrow> node result" where
  "parse fuel u text =
     (let r = snd (parseEmptyLines (Reader text)) in
      case parseElements fuel u ModeFirstSection None r of
        OutOfFuel \<Rightarrow> OutOfFuel
      | Throw e \<Rightarrow> Throw e
      | Ret (children, r1) \<Rightarrow> Ret (OrgData 0 (endOffset r1) children))"

section \<open>An instance of the imported tables\<close>

text \<open>
  Modelled from the spec: the expressions and tables of \<^verbatim>\<open>./parser/utils\<close> are not among
  the sources. The instance below follows the words of the specification and is used
  where a statement needs the parser to run on a concrete input; the general theorems
  hold for every instance.
  \<^item> An item line (sections 3 and 4.2): leading spaces and tabs (the indent), a bullet
    (\<^verbatim>\<open>-\<close>, \<^verbatim>\<open>+\<close>, \<^verbatim>\<open>*\<close>, or digits and one of \<^verbatim>\<open>.\<close> and \<^verbatim>\<open>)\<close>), and then a space, a tab
    or the end of the line. The fuller pattern also takes the spaces and tabs after the
    bullet and a checkbox \<^verbatim>\<open>[ ]\<close>, \<^verbatim>\<open>[X]\<close>, \<^verbatim>\<open>[x]\<close> or \<^verbatim>\<open>[-]\<close> (section 4.3.4); the
    specification gives no syntax for counters and tags, and these groups stay empty.
  \<^item> The list-ending pattern (section 4.2): two consecutive blank lines.
  \<^item> The paragraph separator (sections 4.3.6 and 9): a blank line, a heading line or an
    item line, the constructs the parser supports.
  \<^item> The plain link of the object expression (section 4.3.8): a scheme of letters, a
    colon and a character that is not white space.
  \<^item> The restriction (section 4.3.9): link and text for every element, text alone in a
    link.
  \<^item> The greater elements: the types of \<^verbatim>\<open>GreaterElementType\<close> in \<^verbatim>\<open>src/org/types.ts\<close>.
\<close>

definition is_digit :: "char \<Rightarrow> bool" where
  "is_digit c = (48 \<le> (of_char c :: nat) \<and> (of_char c :: nat) \<le> 57)"

definition is_letter :: "char \<Rightarrow> bool" where
  "is_letter c =
     ((97 \<le> (of_char c :: nat) \<and> (of_char c :: nat) \<le> 122) \<or>
      (65 \<le> (of_char c :: nat) \<and> (of_char c :: nat) \<le> 90))"

definition spec_bullet :: "string \<Rightarrow> nat option" where
  "spec_bullet s =
     (case s of
        [] \<Rightarrow> None
      | c # cs \<Rightarrow>
          if c = CHR ''-'' \<or> c = CHR ''+'' \<or> c = CHR ''*'' then Some 1
          else
            (let n = length (takeWhile is_digit s) in
             case drop n s of
               [] \<Rightarrow> None
             | d # _ \<Rightarrow> if 1 \<le> n \<and> (d = CHR ''.'' \<or> d = CHR '')'') then Some (Suc n) else None))"

definition spec_item :: "string \<Rightarrow> (nat \<times> nat) option" where
  "spec_item s =
     (let i = length (takeWhile is_blank s) in
      case spec_bullet (drop i s) of
        None \<Rightarrow> None
      | Some b \<Rightarrow>
          (case drop (i + b) s of
             [] \<Rightarrow> Some (i, b)
           | c # _ \<Rightarrow> if is_blank c \<or> is_line_terminator c then Some (i, b) else None))"

definition spec_itemRe :: regex where
  "spec_itemRe s =
     (case spec_item s of
        None \<Rightarrow> None
      | Some (i, b) \<Rightarrow>
          Some \<lparr>m_index = 0, m_whole = take (i + b) s,
                m_groups = (\<lambda>g. if g = ''indent'' then Some (take i s) else None)\<rparr>)"

definition spec_checkbox :: "string \<Rightarrow> bool" where
  "spec_checkbox s =
     ((take 3 s = ''[ ]'' \<or> take 3 s = ''[X]'' \<or> take 3 s = ''[x]'' \<or> take 3 s = ''[-]'') \<and>
      (case drop 3 s of [] \<Rightarrow> True | c # _ \<Rightarrow> is_blank c \<or> is_line_terminator c))"

definition spec_fullItemRe :: regex where
  "spec_fullItemRe s =
     (case spec_item s of
        None \<Rightarrow> None
      | Some (i, b) \<Rightarrow>
          (let n = i + b + length (takeWhile is_blank (drop (i + b) s));
               cb = spec_checkbox (drop n s);
               n' = (if cb then n + 3 + length (takeWhile is_blank (drop (n + 3) s)) else n)
           in Some \<lparr>m_index = 0, m_whole = take n' s,
                     m_groups = (\<lambda>g.
                       if g = ''indent'' then Some (take i s)
                       else if g = ''bullet'' then Some (take b (drop i s))
                       else if g = ''checkbox'' \<and> cb then Some (take 3 (drop n s))
                       else None)\<rparr>))"

definition spec_blank_line :: "string \<Rightarrow> nat option" where
  "spec_blank_line s =
     (let n = length (takeWhile is_blank s) in
      case drop n s of
        [] \<Rightarrow> Some n
      | c # _ \<Rightarrow> if is_line_terminator c then Some n else None)"

definition spec_listEndRe :: regex where
  "spec_listEndRe s =
     (let n = length (takeWhile is_blank s) in
      case drop n s of
        [] \<Rightarrow> None
      | c # cs \<Rightarrow>
          if c = CHR 0x0A then
            (let k = length (takeWhile is_blank cs) in
             case drop k cs of
               [] \<Rightarrow> None
             | d # _ \<Rightarrow> if d = CHR 0x0A then Some (mk_match 0 (take (n + k + 2) s)) else None)
          else None)"

definition spec_separator :: "string \<Rightarrow> nat option" where
  "spec_separator s =
     (case spec_blank_line s of
        Some n \<Rightarrow> Some n
      | None \<Rightarrow>
          (case stars_then 1 None (\<lambda>c. c = CHR 0x20) s of
             Some n \<Rightarrow> Some n
           | None \<Rightarrow> map_option (\<lambda>(i, b). i + b) (spec_item s)))"

definition spec_paragraphSeparateRe :: regex where
  "spec_paragraphSeparateRe = re_multiline spec_separator"

definition spec_linkPlainRe :: "string \<Rightarrow> nat \<Rightarrow> bool" where
  "spec_linkPlainRe s i =
     (let n = length (takeWhile is_letter (drop i s)) in
      case drop (i + n) s of
        c # d # _ \<Rightarrow> 1 \<le> n \<and> c = CHR '':'' \<and> \<not> is_space d
      | _ \<Rightarrow> False)"

definition specUtils :: utils where
  "specUtils =
     \<lparr>linkPlainRe = spec_linkPlainRe,
      itemRe = spec_itemRe,
      fullItemRe = spec_fullItemRe,
      paragraphSeparateRe = spec_paragraphSeparateRe,
      listEndRe = spec_listEndRe,
      restriction = (\<lambda>t. if t = ''link'' then [''text''] else [''link'', ''text'']),
      greaterElements =
        [''org-data'', ''headline'', ''property-drawer'', ''section'', ''drawer'', ''plain-list'',
         ''item'', ''quote-block'', ''verse-block'', ''center-block'', ''special-block'',
         ''footnote-definition'', ''table'']\<rparr>"

section \<open>The walk of a list, in the words of the specification\<close>

text \<open>
  Section 4.3.3 of the specification: starting from a position, hop to the end of an
  entry whose \<open>begin\<close> equals the current position and whose indent equals the list
  indent, and continue. \<open>hops st ind p q\<close> says that such hops lead from \<open>p\<close> to \<open>q\<close>.
\<close>

inductive hops :: "list_item list \<Rightarrow> nat \<Rightarrow> nat \<Rightarrow> nat \<Rightarrow> bool" for st ind where
  hops_stay: "hops st ind p p"
| hops_hop: "n \<in> set st \<Longrightarrow> li_begin n = p \<Longrightarrow> li_indent n = ind \<Longrightarrow> hops st ind (li_end n) q
             \<Longrightarrow> hops st ind p q"

text \<open>The structure of the list \<^verbatim>\<open>- hi\<close>, \<^verbatim>\<open>- there\<close>.\<close>

definition two_items :: "list_item list" where
  "two_items =
     [\<lparr>li_begin = 0, li_indent = 0, li_bullet = Some ''-'', li_counter = None,
       li_checkbox = None, li_tag = None, li_end = 5\<rparr>,
      \<lparr>li_begin = 5, li_indent = 0, li_bullet = Some ''-'', li_counter = None,
       li_checkbox = None, li_tag = None, li_end = 12\<rparr>]"

section \<open>All-whitespace text nodes\<close>



section \<open>Blank input\<close>

text \<open>
  An input that consists of blank lines only: every line holds spaces and tabs only, so
  every character is a space, a tab or the line feed that ends a line. The empty input
  is one.
\<close>

definition blank_lines :: "string \<Rightarrow> bool" where
  "blank_lines text = list_all (\<lambda>c. c = CHR 0x20 \<or> c = CHR 0x09 \<or> c = CHR 0x0A) text"

section \<open>The frame of the reader and the order of the children\<close>

text \<open>
  Two readers with the same buffer, window and stack of windows: only the cursor
  differs.
\<close>

definition same_frame :: "reader \<Rightarrow> reader \<Rightarrow> bool" where
  "same_frame r r' = (r' = r\<lparr>r_offset := r_offset r'\<rparr>)"

text \<open>
  The part of \<^verbatim>\<open>Parser.parseHeadline\<close> that does not depend on the parse of the title: the
  level, the raw title, \<open>contentsBegin\<close>, \<open>contentsEnd\<close> and the reader after the call.
\<close>

definition headline_shape :: "reader \<Rightarrow> (nat \<times> string \<times> nat \<times> nat \<times> reader) option" where
  "headline_shape r =
     (case match r re_stars of
        None \<Rightarrow> None
      | Some stars \<Rightarrow>
          (let r1 = advance_match r (Some stars);
               titleMatch = match r1 re_title;
               titleEnd = offset r1 + (case titleMatch of Some t \<Rightarrow> length (m_whole t) | None \<Rightarrow> 0);
               r2 = advance_match r1 titleMatch;
               r6 = snd (parseEmptyLines (advance_string r2 (line r2)));
               contentsEnd = (case match r6 (re_endOfSubtree (length (group_of stars ''1''))) of
                                Some m \<Rightarrow> offset r6 + m_index m
                              | None \<Rightarrow> endOffset r6)
           in Some (length (group_of stars ''1''), substring r1 (offset r1) titleEnd,
                    offset r6, contentsEnd, resetOffset r6 contentsEnd)))"

text \<open>
  The input of a headline and a line of a star and a tab: \<^verbatim>\<open>* a\<close>, then a star, a tab and
  \<^verbatim>\<open>b\<close>.
\<close>

definition tab_input :: string where
  "tab_input = ''* a\<newline>*'' @ [CHR 0x09] @ ''b''"

text \<open>
  The children of a parent are strictly increasing in \<open>contentsBegin\<close> (section 8 of the
  specification), over the children that carry the field.
\<close>

definition begins_increasing :: "node list \<Rightarrow> bool" where
  "begins_increasing cs = sorted_wrt (<) (List.map_filter contentsBegin cs)"

section \<open>What the scanner of the list structure computes\<close>

text \<open>
  The line starts of a reader: the cursor, and from a line start the position after its
  line.
\<close>

inductive line_start :: "reader \<Rightarrow> nat \<Rightarrow> bool" for r where
  line_start_cursor: "line_start r (offset r)"
| line_start_next: "line_start r p \<Longrightarrow> line_start r (p + length (line (resetOffset r p)))"










section \<open>Proof setup\<close>

lemmas reader_defs = Reader_def offset_def endOffset_def eof_def rest_def peek_def line_def
  match_def advance_def advance_string_def advance_match_def resetOffset_def substring_def
  narrow_def widen_def

declare parseObjects.simps [simp del] parseObject.simps [simp del] parseLink.simps [simp del]

declare parseEmptyLines_loop.simps [simp del]

section \<open>Strings and the reader\<close>



lemma length_upto_newline: "length (upto_newline s) \<le> length s"
  by (induction s) auto

lemma upto_newline_empty: "upto_newline s = [] \<longleftrightarrow> s = []"
  by (cases s) auto

lemma list_all_upto_newline: "list_all P s \<Longrightarrow> list_all P (upto_newline s)"
  by (induction s) auto

lemma trim_all_space:
  assumes "list_all is_space s"
  shows "trim s = []"
proof -
  from assms have d: "dropWhile is_space s = []"
    by (induction s) auto
  show ?thesis unfolding trim_def d by simp
qed

lemma length_rest: "r_end r \<le> length (r_text r) \<Longrightarrow> length (rest r) = r_end r - r_offset r"
  by (simp add: rest_def)

lemma rest_advance: "rest (advance r n) = drop n (rest r)"
  by (simp add: rest_def advance_def add.commute)

lemma find_SomeD: "find P xs = Some x \<Longrightarrow> x \<in> set xs \<and> P x"
  by (induction xs) (auto split: if_splits)

section \<open>Narrowing and widening leave the reader as it was\<close>

text \<open>
  Every parser leaves the buffer, the window and the stack of windows of the reader as
  it found them, and moves the cursor only: each \<^verbatim>\<open>narrow\<close> is undone by its \<^verbatim>\<open>widen\<close>. So
  the \<^verbatim>\<open>widen\<close> after the parse of the children restores the reader of before the
  \<^verbatim>\<open>narrow\<close>, and one iteration of the loop of \<^verbatim>\<open>parseElements\<close> is the parse of one
  element, whose children are then set, and the rest of the loop from the reader that
  the element left.
\<close>

lemma same_frame_refl: "same_frame r r"
  by (simp add: same_frame_def)

lemma same_frame_trans: "same_frame a b \<Longrightarrow> same_frame b c \<Longrightarrow> same_frame a c"
  unfolding same_frame_def by (metis reader.update_convs(2) reader.surjective)

lemma same_frame_offset: "same_frame r (r\<lparr>r_offset := n\<rparr>)"
  by (simp add: same_frame_def)

lemma same_frame_advance: "same_frame r (advance r n)" "same_frame r (advance_string r s)"
  "same_frame r (advance_match r m)" "same_frame r (resetOffset r a)"
  by (simp_all add: same_frame_def advance_def advance_string_def advance_match_def resetOffset_def
        split: option.splits)

lemma widen_narrow: "same_frame (narrow r b e) r2 \<Longrightarrow> widen r2 False = r"
  unfolding same_frame_def narrow_def widen_def
  by (cases r, cases r2) (auto split: list.splits)

lemma widen_narrow_keep: "same_frame (narrow r b e) r2 \<Longrightarrow> widen r2 True = r\<lparr>r_offset := r_offset r2\<rparr>"
  unfolding same_frame_def narrow_def widen_def
  by (cases r, cases r2) (auto split: list.splits)

lemma parseEmptyLines_loop_frame:
  "snd (parseEmptyLines_loop r acc) = r\<lparr>r_offset := r_offset (snd (parseEmptyLines_loop r acc))\<rparr>"
proof (induction r acc rule: parseEmptyLines_loop.induct)
  case (1 r result)
  show ?case
  proof (cases "length (trim (line r)) = 0 \<and> line r \<noteq> []")
    case True
    then have eq: "parseEmptyLines_loop r result =
        parseEmptyLines_loop (advance r (length (line r))) (result @ [line r])"
      by (subst parseEmptyLines_loop.simps) simp
    from True "1.IH" have
      "snd (parseEmptyLines_loop (advance r (length (line r))) (result @ [line r])) =
       (advance r (length (line r)))\<lparr>r_offset :=
          r_offset (snd (parseEmptyLines_loop (advance r (length (line r))) (result @ [line r])))\<rparr>"
      by blast
    then show ?thesis
      unfolding eq by (simp add: advance_def)
  next
    case False
    then show ?thesis
      by (subst (1 2) parseEmptyLines_loop.simps) (auto simp: advance_def)
  qed
qed

lemma parseEmptyLines_frame: "same_frame r (snd (parseEmptyLines r))"
  using parseEmptyLines_loop_frame[of r "[]"] by (simp add: same_frame_def parseEmptyLines_def)

lemma parseObjects_from_loop:
  assumes "\<forall>restr objs prev r x r'.
             parseObjects_loop fuel u restr objs prev r = Ret (x, r') \<longrightarrow> same_frame r r'"
  shows "\<forall>restr r x r'. parseObjects fuel u restr r = Ret (x, r') \<longrightarrow> same_frame r r'"
proof (intro allI impI)
  fix restr r x r'
  assume "parseObjects fuel u restr r = Ret (x, r')"
  then obtain objs r1 where "parseObjects_loop fuel u restr [] (- 1) r = Ret (objs, r1)"
    "r' = advance r1 (length (rest r1))"
    by (auto simp: parseObjects.simps split: result.splits)
  with assms show "same_frame r r'"
    by (blast intro: same_frame_trans same_frame_advance)
qed

lemma parseLink_from_objects:
  assumes "\<forall>restr r x r'. parseObjects fuel u restr r = Ret (x, r') \<longrightarrow> same_frame r r'"
  shows "\<forall>r y r'. parseLink fuel u r = Ret (y, r') \<longrightarrow> same_frame r r'"
proof (intro allI impI)
  fix r y r'
  assume ret: "parseLink fuel u r = Ret (y, r')"
  show "same_frame r r'"
  proof (cases "peek r 1 = ''[''")
    case False
    with ret have "r' = advance_match r (match r re_plainLink)"
      by (auto simp: parseLink.simps split: option.splits)
    then show ?thesis by (simp add: same_frame_advance)
  next
    case True
    note br = True
    show ?thesis
    proof (cases "match r linkBracketRe")
      case None
      with ret True show ?thesis
        by (auto simp: parseLink.simps same_frame_advance)
    next
      case (Some m)
      show ?thesis
      proof (cases "\<exists>text. m_groups m ''text'' = Some text \<and> text \<noteq> []")
        case False
        with ret True Some have "r' = advance_match r (Some m)"
          by (auto simp: parseLink.simps split: option.splits if_splits)
        then show ?thesis by (simp add: same_frame_advance)
      next
        case True
        then obtain tx where "m_groups m ''text'' = Some tx" "tx \<noteq> []" by blast
        with ret br Some
        have "\<exists>b e x r2. parseObjects fuel u (RString ''link'') (narrow (advance_match r (Some m)) b e)
                 = Ret (x, r2) \<and> r' = widen r2 False"
          by (simp add: parseLink.simps split: result.splits prod.splits) blast
        then obtain b e x r2 where
          p: "parseObjects fuel u (RString ''link'') (narrow (advance_match r (Some m)) b e) = Ret (x, r2)"
          and r': "r' = widen r2 False"
          by blast
        from assms p have "same_frame (narrow (advance_match r (Some m)) b e) r2" by blast
        then have "widen r2 False = advance_match r (Some m)" by (rule widen_narrow)
        with r' show ?thesis by (simp add: same_frame_advance)
      qed
    qed
  qed
qed

lemma parseObject_from_link:
  assumes "\<forall>r y r'. parseLink fuel u r = Ret (y, r') \<longrightarrow> same_frame r r'"
  shows "\<forall>restr r y r'. parseObject fuel u restr r = Ret (y, r') \<longrightarrow> same_frame r r'"
proof (intro allI impI)
  fix restr r y r'
  assume "parseObject fuel u restr r = Ret (y, r')"
  then have "r' = r \<or> parseLink fuel u r = Ret (y, r')"
    by (auto simp: parseObject.simps split: if_splits restr.splits)
  with assms show "same_frame r r'"
    by (auto simp: same_frame_refl)
qed

lemma parseObjects_loop_Suc:
  assumes ob: "\<forall>restr r y r'. parseObject fuel u restr r = Ret (y, r') \<longrightarrow> same_frame r r'"
      and lp: "\<forall>restr objs prev r x r'.
             parseObjects_loop fuel u restr objs prev r = Ret (x, r') \<longrightarrow> same_frame r r'"
  shows "\<forall>restr objs prev r x r'.
           parseObjects_loop (Suc fuel) u restr objs prev r = Ret (x, r') \<longrightarrow> same_frame r r'"
proof (intro allI impI)
  fix restr objs prev r x r'
  assume ret: "parseObjects_loop (Suc fuel) u restr objs prev r = Ret (x, r')"
  show "same_frame r r'"
  proof (cases "objectRegexp u (rest r)")
    case None
    with ret show ?thesis
      by (auto simp: parseObjects.simps same_frame_refl split: if_splits)
  next
    case (Some index)
    let ?r1 = "if index \<noteq> 0 then advance r index else r"
    from ret Some obtain ob' r2 objs' where
      a: "parseObject fuel u restr ?r1 = Ret (ob', r2)" and
      b: "parseObjects_loop fuel u restr objs' (int (offset r)) r2 = Ret (x, r')"
      by (auto simp: parseObjects.simps split: if_splits result.splits)
    have "same_frame r ?r1" by (simp add: same_frame_refl same_frame_advance)
    moreover from ob a have "same_frame ?r1 r2" by blast
    moreover from lp b have "same_frame r2 r'" by blast
    ultimately show ?thesis by (blast intro: same_frame_trans)
  qed
qed

lemma objects_frame_all:
  "(\<forall>restr objs prev r x r'.
      parseObjects_loop fuel u restr objs prev r = Ret (x, r') \<longrightarrow> same_frame r r') \<and>
   (\<forall>restr r y r'. parseObject fuel u restr r = Ret (y, r') \<longrightarrow> same_frame r r')"
proof (induction fuel)
  case 0
  have lp: "\<forall>restr objs prev r x r'.
      parseObjects_loop 0 u restr objs prev r = Ret (x, r') \<longrightarrow> same_frame r r'"
    by (simp add: parseObjects.simps)
  with parseObject_from_link[OF parseLink_from_objects[OF parseObjects_from_loop[OF lp]]]
  show ?case by (rule_tac conjI)
next
  case (Suc fuel)
  then have lp: "\<forall>restr objs prev r x r'.
      parseObjects_loop (Suc fuel) u restr objs prev r = Ret (x, r') \<longrightarrow> same_frame r r'"
    by (intro parseObjects_loop_Suc) blast+
  with parseObject_from_link[OF parseLink_from_objects[OF parseObjects_from_loop[OF lp]]]
  show ?case by (rule_tac conjI)
qed

lemma parseObjects_frame: "parseObjects fuel u restr r = Ret (x, r') \<Longrightarrow> same_frame r r'"
  using objects_frame_all[of fuel u, THEN conjunct1, THEN parseObjects_from_loop] by blast

lemma parseListStructure_loop_frame:
  "parseListStructure_loop fuel u items struct r = Ret (items', struct', r') \<Longrightarrow>
     r' = r\<lparr>r_offset := r_offset r'\<rparr>"
proof (induction fuel arbitrary: items struct r)
  case 0
  then show ?case by simp
next
  case (Suc fuel)
  have step: "r' = (advance_string r (line r))\<lparr>r_offset := r_offset r'\<rparr> \<Longrightarrow> r' = r\<lparr>r_offset := r_offset r'\<rparr>"
    by (simp add: advance_string_def advance_def)
  from Suc.prems show ?case
    by (auto simp: Let_def split: if_splits option.splits dest!: Suc.IH intro: step)
qed

lemma parseListStructure_frame:
  "parseListStructure fuel u r = Ret (st, r1) \<Longrightarrow> same_frame r r1"
proof -
  assume "parseListStructure fuel u r = Ret (st, r1)"
  then obtain items struct r0 where
    loop: "parseListStructure_loop fuel u [] [] r = Ret (items, struct, r0)" and
    r1: "r1 = snd (parseEmptyLines r0)"
    by (auto simp: parseListStructure_def Let_def split: result.splits)
  from parseListStructure_loop_frame[OF loop] have "same_frame r r0"
    by (simp add: same_frame_def)
  with r1 show ?thesis
    by (blast intro: same_frame_trans parseEmptyLines_frame)
qed

lemma parseList_frame: "parseList fuel st r = Ret (n, r') \<Longrightarrow> same_frame r r'"
  by (auto simp: parseList_def Let_def same_frame_advance split: option.splits result.splits)

lemma parseHeadline_frame: "parseHeadline fuel u r = Ret (n, r') \<Longrightarrow> same_frame r r'"
proof -
  assume ret: "parseHeadline fuel u r = Ret (n, r')"
  then obtain stars where stars: "match r re_stars = Some stars"
    by (cases "match r re_stars") (simp_all add: parseHeadline_def)
  define r1 where "r1 = advance_match r (Some stars)"
  define r2 where "r2 = advance_match r1 (match r1 re_title)"
  define b where "b = offset r1"
  define e where "e = offset r1 + (case match r1 re_title of Some t \<Rightarrow> length (m_whole t) | None \<Rightarrow> 0)"
  define po where "po = parseObjects fuel u (RSet (restriction u ''headline'')) (narrow r2 b e)"
  have unfold: "parseHeadline fuel u r =
     (case po of
        OutOfFuel \<Rightarrow> OutOfFuel
      | Throw err \<Rightarrow> Throw err
      | Ret (title, r3) \<Rightarrow>
          (let r4 = widen r3 False;
               r5 = advance_string r4 (line r4);
               r6 = snd (parseEmptyLines r5);
               contentsBegin = offset r6;
               endOfSubtree = match r6 (re_endOfSubtree (length (group_of stars ''1'')));
               contentsEnd = (case endOfSubtree of
                                Some m \<Rightarrow> contentsBegin + m_index m
                              | None \<Rightarrow> endOffset r6)
           in Ret (Headline (length (group_of stars ''1'')) (substring r1 b e) title
                     contentsBegin contentsEnd [],
                   resetOffset r6 contentsEnd)))"
    unfolding parseHeadline_def po_def r2_def r1_def b_def e_def
    by (simp add: stars Let_def)
  from ret obtain title r3 where p: "po = Ret (title, r3)"
    unfolding unfold by (cases po) auto
  from p have "same_frame (narrow r2 b e) r3"
    unfolding po_def by (rule parseObjects_frame)
  then have w: "widen r3 False = r2" by (rule widen_narrow)
  define r6 where "r6 = snd (parseEmptyLines (advance_string r2 (line r2)))"
  from ret have "\<exists>a. r' = resetOffset r6 a"
    unfolding unfold p r6_def by (simp add: w Let_def) blast
  then obtain a where r': "r' = resetOffset r6 a" by blast
  have "same_frame r r1" "same_frame r1 r2"
    unfolding r1_def r2_def by (rule same_frame_advance)+
  moreover have "same_frame r2 (advance_string r2 (line r2))" by (rule same_frame_advance)
  moreover have "same_frame (advance_string r2 (line r2)) r6"
    unfolding r6_def by (rule parseEmptyLines_frame)
  moreover have "same_frame r6 r'" unfolding r' by (rule same_frame_advance)
  ultimately show ?thesis by (meson same_frame_trans)
qed

lemma parseElement_frame: "parseElement fuel u mode st r = Ret (n, r') \<Longrightarrow> same_frame r r'"
proof -
  assume ret: "parseElement fuel u mode st r = Ret (n, r')"
  consider (item) "mode = ModeItem"
    | (head) "mode \<noteq> ModeItem" "atHeading r"
    | (sect) "mode \<noteq> ModeItem" "\<not> atHeading r" "mode = ModeSection"
    | (first) "mode \<noteq> ModeItem" "\<not> atHeading r" "mode = ModeFirstSection"
    | (lst) "mode \<noteq> ModeItem" "\<not> atHeading r" "mode \<noteq> ModeSection" "mode \<noteq> ModeFirstSection"
        "match r (itemRe u) \<noteq> None"
    | (par) "mode \<noteq> ModeItem" "\<not> atHeading r" "mode \<noteq> ModeSection" "mode \<noteq> ModeFirstSection"
        "match r (itemRe u) = None"
    by blast
  then show ?thesis
  proof cases
    case item
    with ret have "\<exists>m a. r' = resetOffset (advance_match r m) a"
      by (auto simp: parseElement_def parseItem_def Let_def split: option.splits)
    then show ?thesis by (blast intro: same_frame_trans same_frame_advance)
  next
    case head
    with ret show ?thesis by (simp add: parseElement_def parseHeadline_frame)
  next
    case sect
    with ret show ?thesis
      by (auto simp: parseElement_def parseSection_def Let_def same_frame_advance)
  next
    case first
    with ret obtain b e a where "r' = widen (resetOffset (narrow r b e) a) True"
      by (auto simp: parseElement_def parseSection_def Let_def split: prod.splits)
    moreover have "same_frame (narrow r b e) (resetOffset (narrow r b e) a)"
      by (rule same_frame_advance)
    ultimately have "r' = r\<lparr>r_offset := r_offset (resetOffset (narrow r b e) a)\<rparr>"
      by (simp add: widen_narrow_keep)
    then show ?thesis by (simp add: same_frame_def)
  next
    case lst
    show ?thesis
    proof (cases st)
      case (Some s)
      with ret lst show ?thesis by (simp add: parseElement_def parseList_frame)
    next
      case None
      with ret lst obtain s r1 where
        a: "parseListStructure fuel u r = Ret (s, r1)" and
        b: "parseList fuel s (resetOffset r1 (offset r)) = Ret (n, r')"
        by (auto simp: parseElement_def split: result.splits)
      from parseListStructure_frame[OF a] parseList_frame[OF b] show ?thesis
        by (blast intro: same_frame_trans same_frame_advance)
    qed
  next
    case par
    with ret have "\<exists>a. r' = snd (parseEmptyLines (resetOffset r a))"
      by (auto simp: parseElement_def parseParagraph_def Let_def)
    then show ?thesis
      by (blast intro: same_frame_trans same_frame_advance parseEmptyLines_frame)
  qed
qed

lemma set_children_same [simp]: "set_children n (children_of n) = n"
  by (cases n) auto

lemma contentsBegin_set_children [simp]: "contentsBegin (set_children n cs) = contentsBegin n"
  by (cases n) auto

lemma parseElements_loop_step_aux:
  assumes fr: "\<forall>mode st els prev r res r'.
      parseElements_loop fuel u mode st els prev r = Ret (res, r') \<longrightarrow> same_frame r r'"
    and ret: "parseElements_loop (Suc fuel) u mode st els prev r = Ret (res, r')"
    and ne: "\<not> eof r"
  shows "\<exists>x r1 cs. parseElement fuel u mode st r = Ret (x, r1) \<and>
           parseElements_loop fuel u (nextMode mode (node_type x) False) st
             (els @ [set_children x cs]) (int (offset r)) r1 = Ret (res, r')"
proof -
  from ret ne obtain x r1 where el: "parseElement fuel u mode st r = Ret (x, r1)"
    by (auto split: if_splits result.splits)
  let ?mid = "case (contentsBegin x, contentsEnd x) of
                   (Some cbeg, Some cend) \<Rightarrow>
                     if node_type x \<in> set (greaterElements u) then
                       (case parseElements_loop fuel u
                               (nextMode mode (node_type x) True)
                               (case st of Some s \<Rightarrow> Some s
                                                | None \<Rightarrow> structure_of x)
                               [] (- 1) (narrow r1 cbeg cend) of
                          OutOfFuel \<Rightarrow> OutOfFuel
                        | Throw e \<Rightarrow> Throw e
                        | Ret (children, r2) \<Rightarrow>
                            Ret (set_children x children, widen r2 False))
                     else
                       (case parseObjects fuel u (RSet (restriction u (node_type x)))
                               (narrow r1 cbeg cend) of
                          OutOfFuel \<Rightarrow> OutOfFuel
                        | Throw e \<Rightarrow> Throw e
                        | Ret (children, r2) \<Rightarrow>
                            Ret (set_children x children, widen r2 False))
                 | _ \<Rightarrow> Ret (x, r1)"
  from ret ne el obtain x' r3 where
    mid: "?mid = Ret (x', r3)" and
    rec: "parseElements_loop fuel u (nextMode mode (node_type x) False) st
           (els @ [x']) (int (offset r)) r3 = Ret (res, r')"
    by (auto split: if_splits result.splits)
  have "\<exists>cs. x' = set_children x cs \<and> r3 = r1"
  proof (cases "contentsBegin x")
    case None
    with mid have "x' = x \<and> r3 = r1" by simp
    then show ?thesis by (metis set_children_same)
  next
    case (Some cbeg)
    note cb = Some
    show ?thesis
    proof (cases "contentsEnd x")
      case None
      with mid cb have "x' = x \<and> r3 = r1" by simp
      then show ?thesis by (metis set_children_same)
    next
      case (Some cend)
      show ?thesis
      proof (cases "node_type x \<in> set (greaterElements u)")
        case True
        with mid cb Some obtain children r2 where
          c: "parseElements_loop fuel u (nextMode mode (node_type x) True)
                (case st of Some s \<Rightarrow> Some s | None \<Rightarrow> structure_of x)
                [] (- 1) (narrow r1 cbeg cend) = Ret (children, r2)"
          and x': "x' = set_children x children" "r3 = widen r2 False"
          by (auto split: result.splits)
        from fr c have "same_frame (narrow r1 cbeg cend) r2" by blast
        then have "widen r2 False = r1" by (rule widen_narrow)
        with x' show ?thesis by blast
      next
        case False
        with mid cb Some obtain children r2 where
          c: "parseObjects fuel u (RSet (restriction u (node_type x)))
                (narrow r1 cbeg cend) = Ret (children, r2)"
          and x': "x' = set_children x children" "r3 = widen r2 False"
          by (auto split: result.splits)
        from parseObjects_frame[OF c] have "widen r2 False = r1" by (rule widen_narrow)
        with x' show ?thesis by blast
      qed
    qed
  qed
  with el rec show ?thesis by blast
qed

lemma parseElements_loop_frame_all:
  "\<forall>mode st els prev r res r'.
      parseElements_loop fuel u mode st els prev r = Ret (res, r') \<longrightarrow> same_frame r r'"
proof (induction fuel)
  case 0
  show ?case by simp
next
  case (Suc fuel)
  show ?case
  proof (intro allI impI)
    fix mode st els prev r res r'
    assume ret: "parseElements_loop (Suc fuel) u mode st els prev r = Ret (res, r')"
    show "same_frame r r'"
    proof (cases "eof r")
      case True
      with ret show ?thesis by (simp add: same_frame_refl)
    next
      case False
      from parseElements_loop_step_aux[OF Suc ret False] obtain x r1 cs where
        "parseElement fuel u mode st r = Ret (x, r1)"
        "parseElements_loop fuel u (nextMode mode (node_type x) False) st
               (els @ [set_children x cs]) (int (offset r)) r1 = Ret (res, r')"
        by blast
      with Suc show ?thesis
        by (blast intro: same_frame_trans parseElement_frame)
    qed
  qed
qed

lemma parseElements_loop_step:
  assumes "parseElements_loop (Suc fuel) u mode st els prev r = Ret (res, r')" and "\<not> eof r"
  shows "\<exists>x r1 cs. parseElement fuel u mode st r = Ret (x, r1) \<and>
           parseElements_loop fuel u (nextMode mode (node_type x) False) st
             (els @ [set_children x cs]) (int (offset r)) r1 = Ret (res, r')"
  using parseElements_loop_step_aux[OF parseElements_loop_frame_all assms] .

lemma parseElements_loop_prefix:
  "parseElements_loop fuel u mode st els prev r = Ret (res, r') \<Longrightarrow> \<exists>more. res = els @ more"
proof (induction fuel arbitrary: mode st els prev r)
  case 0
  then show ?case by simp
next
  case (Suc fuel)
  show ?case
  proof (cases "eof r")
    case True
    with Suc.prems show ?thesis by simp
  next
    case False
    from parseElements_loop_step[OF Suc.prems False] obtain x r1 cs where
      "parseElements_loop fuel u (nextMode mode (node_type x) False) st
             (els @ [set_children x cs]) (int (offset r)) r1 = Ret (res, r')"
      by blast
    from Suc.IH[OF this] show ?thesis by auto
  qed
qed

section \<open>More fuel never changes a result\<close>

text \<open>
  A call that returns or throws with some fuel does the same with more: the fuel bounds
  the run and decides nothing else. So a result of \<^verbatim>\<open>parse\<close> that is not \<open>OutOfFuel\<close> is
  the result for all larger fuel.
\<close>

lemma parseObjects_mono_from_loop:
  assumes "\<forall>restr objs prev r. parseObjects_loop f u restr objs prev r \<noteq> OutOfFuel \<longrightarrow>
             parseObjects_loop (Suc f) u restr objs prev r = parseObjects_loop f u restr objs prev r"
  shows "\<forall>restr r. parseObjects f u restr r \<noteq> OutOfFuel \<longrightarrow>
           parseObjects (Suc f) u restr r = parseObjects f u restr r"
proof (intro allI impI)
  fix restr r
  assume "parseObjects f u restr r \<noteq> OutOfFuel"
  then have "parseObjects_loop f u restr [] (- 1) r \<noteq> OutOfFuel"
    by (auto simp: parseObjects.simps split: result.splits)
  with assms have "parseObjects_loop (Suc f) u restr [] (- 1) r = parseObjects_loop f u restr [] (- 1) r"
    by blast
  then show "parseObjects (Suc f) u restr r = parseObjects f u restr r"
    by (simp add: parseObjects.simps[of f] parseObjects.simps[of "Suc f"])
qed

lemma parseLink_mono_from_objects:
  assumes "\<forall>restr r. parseObjects f u restr r \<noteq> OutOfFuel \<longrightarrow>
           parseObjects (Suc f) u restr r = parseObjects f u restr r"
  shows "\<forall>r. parseLink f u r \<noteq> OutOfFuel \<longrightarrow> parseLink (Suc f) u r = parseLink f u r"
proof (intro allI impI)
  fix r
  assume ne: "parseLink f u r \<noteq> OutOfFuel"
  show "parseLink (Suc f) u r = parseLink f u r"
  proof (cases "\<exists>m tx. peek r 1 = ''['' \<and> match r linkBracketRe = Some m \<and> m_groups m ''text'' = Some tx \<and> tx \<noteq> []")
    case False
    then show ?thesis
      by (auto simp: parseLink.simps[of f] parseLink.simps[of "Suc f"] split: option.splits)
  next
    case True
    then obtain m tx where h: "peek r 1 = ''[''" "match r linkBracketRe = Some m"
      "m_groups m ''text'' = Some tx" "tx \<noteq> []" by blast
    let ?rn = "narrow (advance_match r (Some m))
                 (offset r + 2 + length (group_of m ''link'') + 2)
                 (offset r + 2 + length (group_of m ''link'') + 2 + length tx)"
    from ne h have "parseObjects f u (RString ''link'') ?rn \<noteq> OutOfFuel"
      by (auto simp: parseLink.simps[of f] split: result.splits)
    with assms have "parseObjects (Suc f) u (RString ''link'') ?rn = parseObjects f u (RString ''link'') ?rn"
      by blast
    with h show ?thesis
      by (simp add: parseLink.simps[of f] parseLink.simps[of "Suc f"])
  qed
qed

lemma parseObject_mono_from_link:
  assumes "\<forall>r. parseLink f u r \<noteq> OutOfFuel \<longrightarrow> parseLink (Suc f) u r = parseLink f u r"
  shows "\<forall>restr r. parseObject f u restr r \<noteq> OutOfFuel \<longrightarrow>
           parseObject (Suc f) u restr r = parseObject f u restr r"
  using assms
  by (auto simp: parseObject.simps[of f] parseObject.simps[of "Suc f"] split: restr.splits)

lemma parseObjects_loop_mono_Suc:
  assumes ob: "\<forall>restr r. parseObject f u restr r \<noteq> OutOfFuel \<longrightarrow>
           parseObject (Suc f) u restr r = parseObject f u restr r"
      and lp: "\<forall>restr objs prev r. parseObjects_loop f u restr objs prev r \<noteq> OutOfFuel \<longrightarrow>
             parseObjects_loop (Suc f) u restr objs prev r = parseObjects_loop f u restr objs prev r"
  shows "\<forall>restr objs prev r. parseObjects_loop (Suc f) u restr objs prev r \<noteq> OutOfFuel \<longrightarrow>
             parseObjects_loop (Suc (Suc f)) u restr objs prev r =
             parseObjects_loop (Suc f) u restr objs prev r"
proof (intro allI impI)
  fix restr objs prev r
  assume ne: "parseObjects_loop (Suc f) u restr objs prev r \<noteq> OutOfFuel"
  show "parseObjects_loop (Suc (Suc f)) u restr objs prev r =
          parseObjects_loop (Suc f) u restr objs prev r"
  proof (cases "prev \<noteq> int (offset r) \<and> objectRegexp u (rest r) \<noteq> None")
    case False
    then show ?thesis
      by (auto simp: parseObjects_loop.simps(2)[of f] parseObjects_loop.simps(2)[of "Suc f"])
  next
    case True
    then obtain index where ix: "prev \<noteq> int (offset r)" "objectRegexp u (rest r) = Some index"
      by auto
    let ?r1 = "if index \<noteq> 0 then advance r index else r"
    from ne ix have one: "parseObject f u restr ?r1 \<noteq> OutOfFuel"
      by (auto simp: parseObjects_loop.simps(2)[of f] split: result.splits)
    with ob have oeq: "parseObject (Suc f) u restr ?r1 = parseObject f u restr ?r1" by blast
    show ?thesis
    proof (cases "parseObject f u restr ?r1")
      case OutOfFuel
      with one show ?thesis by simp
    next
      case (Throw e)
      with ix oeq show ?thesis
        by (simp add: parseObjects_loop.simps(2)[of f] parseObjects_loop.simps(2)[of "Suc f"])
    next
      case (Ret x)
      obtain ob' r2 where x: "x = (ob', r2)" by (cases x)
      let ?objs = "(if index \<noteq> 0 then objs @ [Text (peek r index)] else objs) @
                    (case ob' of None \<Rightarrow> [] | Some y \<Rightarrow> [y])"
      from ne ix Ret x have "parseObjects_loop f u restr ?objs (int (offset r)) r2 \<noteq> OutOfFuel"
        by (simp add: parseObjects_loop.simps(2)[of f])
      with lp have "parseObjects_loop (Suc f) u restr ?objs (int (offset r)) r2 =
                    parseObjects_loop f u restr ?objs (int (offset r)) r2"
        by blast
      with ix oeq Ret x show ?thesis
        by (simp add: parseObjects_loop.simps(2)[of f] parseObjects_loop.simps(2)[of "Suc f"])
    qed
  qed
qed

lemma objects_mono_all:
  "(\<forall>restr objs prev r. parseObjects_loop f u restr objs prev r \<noteq> OutOfFuel \<longrightarrow>
       parseObjects_loop (Suc f) u restr objs prev r = parseObjects_loop f u restr objs prev r) \<and>
   (\<forall>restr r. parseObject f u restr r \<noteq> OutOfFuel \<longrightarrow>
       parseObject (Suc f) u restr r = parseObject f u restr r)"
proof (induction f)
  case 0
  have lp: "\<forall>restr objs prev r. parseObjects_loop 0 u restr objs prev r \<noteq> OutOfFuel \<longrightarrow>
       parseObjects_loop (Suc 0) u restr objs prev r = parseObjects_loop 0 u restr objs prev r"
    by (simp add: parseObjects.simps)
  with parseObject_mono_from_link[OF parseLink_mono_from_objects[OF parseObjects_mono_from_loop[OF lp]]]
  show ?case by (rule_tac conjI)
next
  case (Suc f)
  then have lp: "\<forall>restr objs prev r. parseObjects_loop (Suc f) u restr objs prev r \<noteq> OutOfFuel \<longrightarrow>
             parseObjects_loop (Suc (Suc f)) u restr objs prev r =
             parseObjects_loop (Suc f) u restr objs prev r"
    by (intro parseObjects_loop_mono_Suc) blast+
  with parseObject_mono_from_link[OF parseLink_mono_from_objects[OF parseObjects_mono_from_loop[OF lp]]]
  show ?case by (rule_tac conjI)
qed

lemma parseObjects_mono:
  "parseObjects f u restr r \<noteq> OutOfFuel \<Longrightarrow> parseObjects (Suc f) u restr r = parseObjects f u restr r"
  using objects_mono_all[of f u, THEN conjunct1, THEN parseObjects_mono_from_loop] by blast

lemma parseList_loop_mono_Suc:
  "parseList_loop f st ind p \<noteq> OutOfFuel \<Longrightarrow> parseList_loop (Suc f) st ind p = parseList_loop f st ind p"
proof (induction f arbitrary: p)
  case 0
  then show ?case by simp
next
  case (Suc f)
  show ?case
  proof (cases "find (\<lambda>x. li_begin x = p \<and> li_indent x = ind) st")
    case None
    then show ?thesis by simp
  next
    case (Some n)
    with Suc.prems have "parseList_loop f st ind (li_end n) \<noteq> OutOfFuel" by simp
    from Suc.IH[OF this] Some show ?thesis by simp
  qed
qed

lemma parseList_mono:
  "parseList f st r \<noteq> OutOfFuel \<Longrightarrow> parseList (Suc f) st r = parseList f st r"
proof -
  assume ne: "parseList f st r \<noteq> OutOfFuel"
  show ?thesis
  proof (cases "find (\<lambda>x. li_begin x = offset r) st")
    case None
    then show ?thesis by (simp add: parseList_def)
  next
    case (Some item)
    with ne have "parseList_loop f st (li_indent item) (li_end item) \<noteq> OutOfFuel"
      by (auto simp: parseList_def split: result.splits)
    from parseList_loop_mono_Suc[OF this] Some show ?thesis
      by (simp add: parseList_def)
  qed
qed

lemma parseListStructure_loop_mono:
  "parseListStructure_loop f u items struct r \<noteq> OutOfFuel \<Longrightarrow>
     parseListStructure_loop (Suc f) u items struct r = parseListStructure_loop f u items struct r"
proof (induction f arbitrary: items struct r)
  case 0
  then show ?case by simp
next
  case (Suc f)
  note ne = Suc.prems
  show ?case
  proof (cases "eof r \<or> (case match r (listEndRe u) of Some m \<Rightarrow> m_index m = 0 | None \<Rightarrow> False)")
    case True
    then show ?thesis by simp
  next
    case stop: False
    show ?thesis
    proof (cases "match r (itemRe u)")
      case (Some m)
      show ?thesis
      proof (cases "m_groups m ''indent''")
        case None
        with stop Some show ?thesis by simp
      next
        case ind: (Some i)
        show ?thesis
        proof (cases "match r (fullItemRe u)")
          case None
          with stop Some ind show ?thesis by simp
        next
          case full: (Some fullM)
          let ?items = "fst (closeItems items struct (length i) (offset r)) @
                           [\<lparr>li_begin = offset r, li_indent = length i,
                             li_bullet = m_groups fullM ''bullet'',
                             li_counter = m_groups fullM ''counter'',
                             li_checkbox = m_groups fullM ''checkbox'',
                             li_tag = m_groups fullM ''tag'',
                             li_end = offset r\<rparr>]"
          let ?struct = "snd (closeItems items struct (length i) (offset r))"
          from ne stop Some ind full
          have "parseListStructure_loop f u ?items ?struct (advance_string r (line r)) \<noteq> OutOfFuel"
            by simp
          from Suc.IH[OF this] stop Some ind full show ?thesis by simp
        qed
      qed
    next
      case None
      show ?thesis
      proof (cases "match r re_blankRest \<noteq> None")
        case True
        with ne stop None
        have "parseListStructure_loop f u items struct (advance_string r (line r)) \<noteq> OutOfFuel"
          by simp
        from Suc.IH[OF this] stop None True show ?thesis by simp
      next
        case nb: False
        show ?thesis
        proof (cases "match r re_leadingBlank")
          case None
          then show ?thesis by (simp add: match_def re_leadingBlank_def)
        next
          case (Some im)
          note noitem = \<open>match r (itemRe u) = None\<close>
          show ?thesis
          proof (cases "fst (closeItems items struct (length (m_whole im)) (offset r)) = []")
            case True
            with stop noitem nb Some show ?thesis by simp
          next
            case False
            with ne stop noitem nb Some
            have "parseListStructure_loop f u
                    (fst (closeItems items struct (length (m_whole im)) (offset r)))
                    (snd (closeItems items struct (length (m_whole im)) (offset r)))
                    (advance_string r (line r)) \<noteq> OutOfFuel"
              by simp
            from Suc.IH[OF this] stop noitem nb Some False show ?thesis by simp
          qed
        qed
      qed
    qed
  qed
qed

lemma parseListStructure_mono:
  "parseListStructure f u r \<noteq> OutOfFuel \<Longrightarrow> parseListStructure (Suc f) u r = parseListStructure f u r"
proof -
  assume "parseListStructure f u r \<noteq> OutOfFuel"
  then have "parseListStructure_loop f u [] [] r \<noteq> OutOfFuel"
    by (auto simp: parseListStructure_def split: result.splits)
  from parseListStructure_loop_mono[OF this] show ?thesis
    by (simp add: parseListStructure_def)
qed

lemma parseHeadline_mono:
  "parseHeadline f u r \<noteq> OutOfFuel \<Longrightarrow> parseHeadline (Suc f) u r = parseHeadline f u r"
proof -
  assume ne: "parseHeadline f u r \<noteq> OutOfFuel"
  show ?thesis
  proof (cases "match r re_stars")
    case None
    then show ?thesis by (simp add: parseHeadline_def)
  next
    case (Some stars)
    define r1 where "r1 = advance_match r (Some stars)"
    define r2 where "r2 = advance_match r1 (match r1 re_title)"
    define b where "b = offset r1"
    define e where "e = offset r1 + (case match r1 re_title of Some t \<Rightarrow> length (m_whole t) | None \<Rightarrow> 0)"
    define k where "k = (\<lambda>po :: (node list \<times> reader) result.
      case po of
        OutOfFuel \<Rightarrow> OutOfFuel
      | Throw err \<Rightarrow> Throw err
      | Ret (title, r3) \<Rightarrow>
          (let r4 = widen r3 False;
               r5 = advance_string r4 (line r4);
               r6 = snd (parseEmptyLines r5);
               contentsBegin = offset r6;
               endOfSubtree = match r6 (re_endOfSubtree (length (group_of stars ''1'')));
               contentsEnd = (case endOfSubtree of
                                Some m \<Rightarrow> contentsBegin + m_index m
                              | None \<Rightarrow> endOffset r6)
           in Ret (Headline (length (group_of stars ''1'')) (substring r1 b e) title
                     contentsBegin contentsEnd [],
                   resetOffset r6 contentsEnd)))"
    have unf: "parseHeadline g u r = k (parseObjects g u (RSet (restriction u ''headline'')) (narrow r2 b e))" for g
      unfolding parseHeadline_def k_def r2_def r1_def b_def e_def
      by (simp add: Some Let_def)
    from ne have "parseObjects f u (RSet (restriction u ''headline'')) (narrow r2 b e) \<noteq> OutOfFuel"
      unfolding unf k_def by (auto split: result.splits)
    from parseObjects_mono[OF this] show ?thesis
      unfolding unf by simp
  qed
qed

lemma parseElement_mono:
  "parseElement f u mode st r \<noteq> OutOfFuel \<Longrightarrow> parseElement (Suc f) u mode st r = parseElement f u mode st r"
proof -
  assume ne: "parseElement f u mode st r \<noteq> OutOfFuel"
  consider (head) "mode \<noteq> ModeItem" "atHeading r"
    | (lst) "mode \<noteq> ModeItem" "\<not> atHeading r" "mode \<noteq> ModeSection" "mode \<noteq> ModeFirstSection"
        "match r (itemRe u) \<noteq> None"
    | (other) "mode = ModeItem \<or> (\<not> atHeading r \<and> (mode = ModeSection \<or> mode = ModeFirstSection \<or> match r (itemRe u) = None))"
    by blast
  then show ?thesis
  proof cases
    case head
    with ne show ?thesis by (simp add: parseElement_def parseHeadline_mono)
  next
    case other
    then show ?thesis by (auto simp: parseElement_def)
  next
    case lst
    show ?thesis
    proof (cases st)
      case (Some s)
      with ne lst show ?thesis by (simp add: parseElement_def parseList_mono)
    next
      case None
      with ne lst have a: "parseListStructure f u r \<noteq> OutOfFuel"
        by (auto simp: parseElement_def split: result.splits)
      note eq = parseListStructure_mono[OF a]
      show ?thesis
      proof (cases "parseListStructure f u r")
        case OutOfFuel
        with a show ?thesis by simp
      next
        case (Throw err)
        with eq None lst show ?thesis by (simp add: parseElement_def)
      next
        case (Ret x)
        obtain s r1 where x: "x = (s, r1)" by (cases x)
        from ne None lst Ret x have "parseList f s (resetOffset r1 (offset r)) \<noteq> OutOfFuel"
          by (simp add: parseElement_def)
        from parseList_mono[OF this] eq None lst Ret x show ?thesis
          by (simp add: parseElement_def)
      qed
    qed
  qed
qed

lemma parseElements_loop_mono:
  "parseElements_loop f u mode st els prev r \<noteq> OutOfFuel \<Longrightarrow>
     parseElements_loop (Suc f) u mode st els prev r = parseElements_loop f u mode st els prev r"
proof (induction f arbitrary: mode st els prev r)
  case 0
  then show ?case by simp
next
  case (Suc f)
  note ne = Suc.prems
  show ?case
  proof (cases "eof r \<or> int (offset r) = prev")
    case True
    then show ?thesis by auto
  next
    case go: False
    with ne have pe: "parseElement f u mode st r \<noteq> OutOfFuel"
      by (auto split: result.splits)
    note peq = parseElement_mono[OF pe]
    show ?thesis
    proof (cases "parseElement f u mode st r")
      case OutOfFuel
      with pe show ?thesis by simp
    next
      case (Throw err)
      with go peq show ?thesis by simp
    next
      case (Ret xr)
      obtain x r1 where xr: "xr = (x, r1)" by (cases xr)
      define mid where "mid = (\<lambda>g.
         case (contentsBegin x, contentsEnd x) of
           (Some cbeg, Some cend) \<Rightarrow>
             if node_type x \<in> set (greaterElements u) then
               (case parseElements_loop g u
                       (nextMode mode (node_type x) True)
                       (case st of Some s \<Rightarrow> Some s | None \<Rightarrow> structure_of x)
                       [] (- 1) (narrow r1 cbeg cend) of
                  OutOfFuel \<Rightarrow> OutOfFuel
                | Throw e \<Rightarrow> Throw e
                | Ret (children, r2) \<Rightarrow>
                    Ret (set_children x children, widen r2 False))
             else
               (case parseObjects g u (RSet (restriction u (node_type x)))
                       (narrow r1 cbeg cend) of
                  OutOfFuel \<Rightarrow> OutOfFuel
                | Throw e \<Rightarrow> Throw e
                | Ret (children, r2) \<Rightarrow>
                    Ret (set_children x children, widen r2 False))
         | _ \<Rightarrow> Ret (x, r1))"
      have unf: "parseElements_loop (Suc g) u mode st els prev r =
          (case mid g of
             OutOfFuel \<Rightarrow> OutOfFuel
           | Throw e \<Rightarrow> Throw e
           | Ret (element', r3) \<Rightarrow>
               parseElements_loop g u (nextMode mode (node_type x) False) st
                 (els @ [element']) (int (offset r)) r3)"
        if "parseElement g u mode st r = Ret (x, r1)" for g
        using go that unfolding mid_def by simp
      have u1: "parseElements_loop (Suc f) u mode st els prev r =
          (case mid f of
             OutOfFuel \<Rightarrow> OutOfFuel
           | Throw e \<Rightarrow> Throw e
           | Ret (element', r3) \<Rightarrow>
               parseElements_loop f u (nextMode mode (node_type x) False) st
                 (els @ [element']) (int (offset r)) r3)"
        using Ret xr by (intro unf) simp
      have u2: "parseElements_loop (Suc (Suc f)) u mode st els prev r =
          (case mid (Suc f) of
             OutOfFuel \<Rightarrow> OutOfFuel
           | Throw e \<Rightarrow> Throw e
           | Ret (element', r3) \<Rightarrow>
               parseElements_loop (Suc f) u (nextMode mode (node_type x) False) st
                 (els @ [element']) (int (offset r)) r3)"
        using Ret xr peq by (intro unf) simp
      from ne have mne: "mid f \<noteq> OutOfFuel"
        unfolding u1 by (auto split: result.splits)
      have meq: "mid (Suc f) = mid f"
      proof (cases "\<exists>cbeg cend. contentsBegin x = Some cbeg \<and> contentsEnd x = Some cend")
        case False
        then show ?thesis
          unfolding mid_def by (auto split: option.splits)
      next
        case True
        then obtain cbeg cend where c: "contentsBegin x = Some cbeg" "contentsEnd x = Some cend"
          by blast
        show ?thesis
        proof (cases "node_type x \<in> set (greaterElements u)")
          case True
          with mne c have "parseElements_loop f u (nextMode mode (node_type x) True)
                       (case st of Some s \<Rightarrow> Some s | None \<Rightarrow> structure_of x)
                       [] (- 1) (narrow r1 cbeg cend) \<noteq> OutOfFuel"
            unfolding mid_def by (auto split: result.splits)
          from Suc.IH[OF this] c True show ?thesis
            unfolding mid_def by simp
        next
          case False
          with mne c have "parseObjects f u (RSet (restriction u (node_type x)))
                       (narrow r1 cbeg cend) \<noteq> OutOfFuel"
            unfolding mid_def by (auto split: result.splits)
          from parseObjects_mono[OF this] c False show ?thesis
            unfolding mid_def by simp
        qed
      qed
      show ?thesis
      proof (cases "mid f")
        case OutOfFuel
        with mne show ?thesis by simp
      next
        case (Throw err)
        then show ?thesis unfolding u1 u2 meq by simp
      next
        case (Ret er)
        obtain element' r3 where er: "er = (element', r3)" by (cases er)
        from ne Ret er have "parseElements_loop f u (nextMode mode (node_type x) False) st
                 (els @ [element']) (int (offset r)) r3 \<noteq> OutOfFuel"
          unfolding u1 by simp
        from Suc.IH[OF this] Ret er show ?thesis
          unfolding u1 u2 meq by simp
      qed
    qed
  qed
qed

lemma parse_mono: "parse f u t \<noteq> OutOfFuel \<Longrightarrow> parse (Suc f) u t = parse f u t"
proof -
  assume "parse f u t \<noteq> OutOfFuel"
  then have "parseElements_loop f u ModeFirstSection None [] (- 1) (snd (parseEmptyLines (Reader t)))
               \<noteq> OutOfFuel"
    by (auto simp: parse_def parseElements_def Let_def split: result.splits)
  from parseElements_loop_mono[OF this] show ?thesis
    by (simp add: parse_def parseElements_def)
qed

lemma parse_fuel: "parse f u t \<noteq> OutOfFuel \<Longrightarrow> parse (f + k) u t = parse f u t"
proof (induction k)
  case 0
  show ?case by simp
next
  case (Suc k)
  then have "parse (f + k) u t \<noteq> OutOfFuel" by simp
  from parse_mono[OF this] Suc show ?case by simp
qed

section \<open>C1: the order of the children\<close>

lemma parseHeadline_shape:
  assumes ret: "parseHeadline fuel u r = Ret (n, r')"
  shows "\<exists>title lv raw cb ce. headline_shape r = Some (lv, raw, cb, ce, r') \<and>
           n = Headline lv raw title cb ce []"
proof -
  from ret obtain stars where stars: "match r re_stars = Some stars"
    by (cases "match r re_stars") (simp_all add: parseHeadline_def)
  define r1 where "r1 = advance_match r (Some stars)"
  define r2 where "r2 = advance_match r1 (match r1 re_title)"
  define b where "b = offset r1"
  define e where "e = offset r1 + (case match r1 re_title of Some t \<Rightarrow> length (m_whole t) | None \<Rightarrow> 0)"
  define po where "po = parseObjects fuel u (RSet (restriction u ''headline'')) (narrow r2 b e)"
  have unfold: "parseHeadline fuel u r =
     (case po of
        OutOfFuel \<Rightarrow> OutOfFuel
      | Throw err \<Rightarrow> Throw err
      | Ret (title, r3) \<Rightarrow>
          (let r4 = widen r3 False;
               r5 = advance_string r4 (line r4);
               r6 = snd (parseEmptyLines r5);
               contentsBegin = offset r6;
               endOfSubtree = match r6 (re_endOfSubtree (length (group_of stars ''1'')));
               contentsEnd = (case endOfSubtree of
                                Some m \<Rightarrow> contentsBegin + m_index m
                              | None \<Rightarrow> endOffset r6)
           in Ret (Headline (length (group_of stars ''1'')) (substring r1 b e) title
                     contentsBegin contentsEnd [],
                   resetOffset r6 contentsEnd)))"
    unfolding parseHeadline_def po_def r2_def r1_def b_def e_def
    by (simp add: stars Let_def)
  from ret obtain title r3 where p: "po = Ret (title, r3)"
    unfolding unfold by (cases po) auto
  from p have "same_frame (narrow r2 b e) r3"
    unfolding po_def by (rule parseObjects_frame)
  then have w: "widen r3 False = r2" by (rule widen_narrow)
  define r6 where "r6 = snd (parseEmptyLines (advance_string r2 (line r2)))"
  define ce where "ce = (case match r6 (re_endOfSubtree (length (group_of stars ''1''))) of
                                Some m \<Rightarrow> offset r6 + m_index m
                              | None \<Rightarrow> endOffset r6)"
  have sh: "headline_shape r =
     Some (length (group_of stars ''1''), substring r1 b e, offset r6, ce, resetOffset r6 ce)"
    unfolding headline_shape_def ce_def r6_def r2_def r1_def b_def e_def
    by (simp add: stars Let_def)
  have "parseHeadline fuel u r =
     Ret (Headline (length (group_of stars ''1'')) (substring r1 b e) title (offset r6) ce [],
          resetOffset r6 ce)"
    unfolding unfold p ce_def r6_def Let_def result.case prod.case w by (rule refl)
  with ret have "n = Headline (length (group_of stars ''1'')) (substring r1 b e) title (offset r6) ce []"
    "r' = resetOffset r6 ce"
    by simp_all
  with sh show ?thesis by blast
qed

lemma parseList_begin: "parseList fuel s r0 = Ret (x, r1) \<Longrightarrow> contentsBegin x = Some (offset r0)"
  by (auto simp: parseList_def Let_def split: option.splits result.splits)

lemma parseElement_begin:
  assumes "parseElement fuel u ModeNull st r = Ret (x, r1)" and "\<not> atHeading r"
  shows "contentsBegin x = Some (offset r)"
proof (cases "match r (itemRe u) = None")
  case True
  with assms show ?thesis
    by (auto simp: parseElement_def parseParagraph_def Let_def)
next
  case False
  show ?thesis
  proof (cases st)
    case (Some s)
    with assms False have "parseList fuel s r = Ret (x, r1)"
      by (simp add: parseElement_def)
    then show ?thesis by (rule parseList_begin)
  next
    case None
    with assms False obtain s r0 where "parseList fuel s (resetOffset r0 (offset r)) = Ret (x, r1)"
      by (auto simp: parseElement_def split: result.splits)
    from parseList_begin[OF this] show ?thesis
      by (simp add: resetOffset_def offset_def)
  qed
qed

text \<open>
  C1. The children of every parent should be strictly increasing in \<open>contentsBegin\<close>.
  The contents of a headline end at the next line of at most as many stars and a space
  or a tab (\<open>re_endOfSubtree\<close>), but \<^verbatim>\<open>atHeading\<close> takes a line for a heading only when a
  space follows the stars. On the headline \<^verbatim>\<open>* a\<close> followed by a line of a star, a tab
  and \<^verbatim>\<open>b\<close>, the contents of the headline are empty, from 4 to 4, and the second line is
  parsed as a list or as a paragraph that begins at 4 as well: whatever the imported
  tables are, whenever \<^verbatim>\<open>parse\<close> returns on this input, the first two children of the root
  have the same \<open>contentsBegin\<close>.
\<close>

theorem parse_children_begin:
  assumes ret: "parse fuel u tab_input = Ret ast"
  shows "(\<exists>title cs x more.
            ast = OrgData 0 7 (Headline 1 ''a'' title 4 4 cs # x # more) \<and> contentsBegin x = Some 4) \<and>
         \<not> begins_increasing (children_of ast)"
proof -
  let ?r0 = "Reader tab_input"
  have r0: "snd (parseEmptyLines ?r0) = ?r0"
    by (simp add: parseEmptyLines_def parseEmptyLines_loop.simps tab_input_def reader_defs
          trim_def is_space_def)
  from ret obtain children rz where
    els: "parseElements_loop fuel u ModeFirstSection None [] (- 1) ?r0 = Ret (children, rz)" and
    ast: "ast = OrgData 0 (endOffset rz) children"
    by (auto simp: parse_def parseElements_def r0 Let_def split: result.splits)
  from parseElements_loop_frame_all els have "same_frame ?r0 rz" by blast
  then have "r_end rz = r_end ?r0" unfolding same_frame_def by (metis reader.select_convs(4) reader.surjective reader.update_convs(2))
  then have ez: "endOffset rz = 7"
    by (simp add: endOffset_def Reader_def tab_input_def)
  from els obtain f where f: "fuel = Suc f" by (cases fuel) auto
  have ne0: "\<not> eof ?r0" by (simp add: reader_defs tab_input_def)
  from parseElements_loop_step[OF els[unfolded f] ne0] obtain x r1 cs where
    x: "parseElement f u ModeFirstSection None ?r0 = Ret (x, r1)" and
    l1: "parseElements_loop f u (nextMode ModeFirstSection (node_type x) False) None
           ([] @ [set_children x cs]) (int (offset ?r0)) r1 = Ret (children, rz)"
    by blast
  have ah: "atHeading ?r0"
    by (simp add: atHeading_def reader_defs tab_input_def re_atHeading_def re_anchored_def stars_then_def)
  with x have "parseHeadline f u ?r0 = Ret (x, r1)" by (simp add: parseElement_def)
  from parseHeadline_shape[OF this] obtain title lv raw cb ce where
    sh: "headline_shape ?r0 = Some (lv, raw, cb, ce, r1)" and xh: "x = Headline lv raw title cb ce []"
    by blast
  have "headline_shape ?r0 = Some (1, ''a'', 4, 4, ?r0\<lparr>r_offset := 4\<rparr>)"
    unfolding tab_input_def by code_simp
  with sh xh have xh': "x = Headline 1 ''a'' title 4 4 []" and r1: "r1 = ?r0\<lparr>r_offset := 4\<rparr>"
    by simp_all
  from l1 have l1': "parseElements_loop f u ModeNull None [Headline 1 ''a'' title 4 4 cs] 0 r1 =
      Ret (children, rz)"
    by (simp add: xh' nextMode_def offset_def Reader_def)
  from l1' obtain g where g: "f = Suc g" by (cases f) auto
  have ne1: "\<not> eof r1" by (simp add: r1 reader_defs tab_input_def)
  from parseElements_loop_step[OF l1'[unfolded g] ne1] obtain y r2 cs2 where
    y: "parseElement g u ModeNull None r1 = Ret (y, r2)" and
    l2: "parseElements_loop g u (nextMode ModeNull (node_type y) False) None
           ([Headline 1 ''a'' title 4 4 cs] @ [set_children y cs2]) (int (offset r1)) r2 = Ret (children, rz)"
    by blast
  have nh: "\<not> atHeading r1"
    by (simp add: r1 atHeading_def reader_defs tab_input_def re_atHeading_def re_anchored_def stars_then_def)
  from parseElement_begin[OF y nh] have "contentsBegin y = Some 4"
    by (simp add: r1 offset_def)
  moreover from parseElements_loop_prefix[OF l2] obtain more where
    "children = Headline 1 ''a'' title 4 4 cs # set_children y cs2 # more"
    by auto
  ultimately have shape: "ast = OrgData 0 7 (Headline 1 ''a'' title 4 4 cs # set_children y cs2 # more) \<and>
      contentsBegin (set_children y cs2) = Some 4"
    by (simp add: ast ez)
  then have "\<not> begins_increasing (children_of ast)"
    by (simp add: begins_increasing_def List.map_filter_simps)
  with shape show ?thesis by blast
qed

theorem parse_children_begin_witness:
  "parse 5 specUtils tab_input =
     Ret (OrgData 0 7
       [Headline 1 ''a'' [Text ''a''] 4 4 [],
        PlainList 0 4 7
          [\<lparr>li_begin = 4, li_indent = 0, li_bullet = Some ''*'', li_counter = None,
            li_checkbox = None, li_tag = None, li_end = 7\<rparr>]
          [Item 0 (Some ''*'') None 6 7 [Paragraph 6 7 [Text ''b'']]]])
   \<and> \<not> begins_increasing
         [Headline 1 ''a'' [Text ''a''] 4 4 [],
          PlainList 0 4 7
            [\<lparr>li_begin = 4, li_indent = 0, li_bullet = Some ''*'', li_counter = None,
              li_checkbox = None, li_tag = None, li_end = 7\<rparr>]
            [Item 0 (Some ''*'') None 6 7 [Paragraph 6 7 [Text ''b'']]]]"
proof -
  have run: "parse 5 specUtils tab_input =
     Ret (OrgData 0 7
       [Headline 1 ''a'' [Text ''a''] 4 4 [],
        PlainList 0 4 7
          [\<lparr>li_begin = 4, li_indent = 0, li_bullet = Some ''*'', li_counter = None,
            li_checkbox = None, li_tag = None, li_end = 7\<rparr>]
          [Item 0 (Some ''*'') None 6 7 [Paragraph 6 7 [Text ''b'']]]])"
    unfolding tab_input_def by code_simp
  from parse_children_begin[OF run] run show ?thesis by simp
qed

section \<open>C2 and C3: an object parser that returns nothing\<close>

text \<open>
  C3. When \<^verbatim>\<open>parseObject\<close> returns \<^verbatim>\<open>null\<close> the driver should recover by consuming one
  byte as text, so that \<^verbatim>\<open>no progress\<close> is never raised. The source has no such step (a
  comment marks it as still to do): on \<^verbatim>\<open>[[\<close> the object expression matches at index 0,
  \<^verbatim>\<open>parseLink\<close> finds no bracket link and returns \<^verbatim>\<open>null\<close> with the cursor in place, and the
  next iteration raises \<^verbatim>\<open>no progress\<close>, for every instance of the imported tables, every
  restriction set and all fuel that lets the loop run twice.
\<close>

theorem parseObjects_no_progress:
  "parseObjects (Suc (Suc fuel)) u (RSet xs) (Reader ''[['') = Throw NoProgress"
  by (simp add: parseObjects.simps parseObject.simps parseLink.simps reader_defs
        objectRegexp_def linkBracketRe_def)

text \<open>
  C2. An unterminated bracket link should degrade to text: \<^verbatim>\<open>parse\<close> should succeed and
  the text \<^verbatim>\<open>[[\<close> should appear in a text node. \<^verbatim>\<open>parse("[[")\<close> raises \<^verbatim>\<open>no progress\<close>
  instead (from the loop of \<^verbatim>\<open>parseObjects\<close> on the paragraph, as in C3).
\<close>

theorem parse_unterminated_link:
  "parse (4 + k) specUtils ''[['' = Throw NoProgress"
proof -
  have "parse 4 specUtils ''[['' = Throw NoProgress"
    by code_simp
  then show ?thesis
    using parse_fuel [of 4 specUtils "''[[''" k] by simp
qed

section \<open>C4: the end of a section\<close>

text \<open>
  C4. In mode section, away from a heading, \<^verbatim>\<open>parseSection\<close> should end the section at
  the next line that begins with stars followed by a space or a tab, or at the end of
  the window. The class of its expression holds the space, the backslash and the letter
  t instead. In the body of the headline of \<^verbatim>\<open>* h\<close>, \<^verbatim>\<open>x\<close>, \<^verbatim>\<open>*ty\<close> no line is a heading
  line (\<open>re_nextHeading\<close>, the expression of the first section, finds none), and the
  section ends at offset 6, before \<^verbatim>\<open>*ty\<close>; with a last line of two stars, a tab and
  \<^verbatim>\<open>y\<close> the heading line at offset 6 is passed and the section runs to the end of the
  window.
\<close>

theorem parseSection_heading_class:
  "fst (parseSection (narrow (resetOffset (Reader ''* h\<newline>x\<newline>*ty'') 9) 4 9)) = Section 4 6 []
   \<and> match (narrow (resetOffset (Reader ''* h\<newline>x\<newline>*ty'') 9) 4 9) re_nextHeading = None
   \<and> fst (parseSection
          (narrow (resetOffset (Reader (''* h\<newline>x\<newline>**'' @ [CHR 0x09] @ ''y'')) 10) 4 10))
       = Section 4 10 []
   \<and> map_option m_index
         (match (narrow (resetOffset (Reader (''* h\<newline>x\<newline>**'' @ [CHR 0x09] @ ''y'')) 10) 4 10)
            re_nextHeading) = Some 2
   \<and> parse (6 + k) specUtils ''* h\<newline>x\<newline>*ty'' =
       Ret (OrgData 0 9
         [Headline 1 ''h'' [Text ''h''] 4 9
           [Section 4 6 [Paragraph 4 6 [Text ''x\<newline>'']], Paragraph 6 9 [Text ''*ty'']]])"
proof -
  have run: "parse 6 specUtils ''* h\<newline>x\<newline>*ty'' =
       Ret (OrgData 0 9
         [Headline 1 ''h'' [Text ''h''] 4 9
           [Section 4 6 [Paragraph 4 6 [Text ''x\<newline>'']], Paragraph 6 9 [Text ''*ty'']]])"
    by code_simp
  have "parse (6 + k) specUtils ''* h\<newline>x\<newline>*ty'' = parse 6 specUtils ''* h\<newline>x\<newline>*ty''"
    using parse_fuel [of 6 specUtils "''* h\<newline>x\<newline>*ty''" k] run by simp
  then have e2e: "parse (6 + k) specUtils ''* h\<newline>x\<newline>*ty'' =
       Ret (OrgData 0 9
         [Headline 1 ''h'' [Text ''h''] 4 9
           [Section 4 6 [Paragraph 4 6 [Text ''x\<newline>'']], Paragraph 6 9 [Text ''*ty'']]])"
    using run by simp
  have a: "fst (parseSection (narrow (resetOffset (Reader ''* h\<newline>x\<newline>*ty'') 9) 4 9)) = Section 4 6 []"
    by code_simp
  have b: "match (narrow (resetOffset (Reader ''* h\<newline>x\<newline>*ty'') 9) 4 9) re_nextHeading = None"
    by code_simp
  have c: "fst (parseSection
          (narrow (resetOffset (Reader (''* h\<newline>x\<newline>**'' @ [CHR 0x09] @ ''y'')) 10) 4 10))
       = Section 4 10 []"
    by code_simp
  have d: "map_option m_index
         (match (narrow (resetOffset (Reader (''* h\<newline>x\<newline>**'' @ [CHR 0x09] @ ''y'')) 10) 4 10)
            re_nextHeading) = Some 2"
    by code_simp
  from a b c d e2e show ?thesis by (intro conjI)
qed

section \<open>C5: the contents of a list\<close>

lemma parseList_loop_sound:
  "parseList_loop fuel st ind p = Ret q \<Longrightarrow>
     hops st ind p q \<and> find (\<lambda>x. li_begin x = q \<and> li_indent x = ind) st = None"
proof (induction fuel arbitrary: p)
  case 0
  then show ?case by simp
next
  case (Suc fuel)
  show ?case
  proof (cases "find (\<lambda>x. li_begin x = p \<and> li_indent x = ind) st")
    case None
    with Suc.prems have "q = p" by simp
    with None show ?thesis by (simp add: hops_stay)
  next
    case (Some n)
    with Suc.prems have "parseList_loop fuel st ind (li_end n) = Ret q" by simp
    from Suc.IH[OF this] find_SomeD[OF Some] show ?thesis
      by (auto intro: hops_hop)
  qed
qed

lemma parseList_loop_mono:
  "parseList_loop fuel st ind p = Ret q \<Longrightarrow> fuel \<le> fuel' \<Longrightarrow> parseList_loop fuel' st ind p = Ret q"
proof (induction fuel arbitrary: p fuel')
  case 0
  then show ?case by simp
next
  case (Suc fuel)
  then obtain k where k: "fuel' = Suc k" "fuel \<le> k"
    by (cases fuel') auto
  with Suc show ?case
    by (cases "find (\<lambda>x. li_begin x = p \<and> li_indent x = ind) st") auto
qed

lemma parseList_loop_terminates:
  assumes "list_all (\<lambda>x. li_begin x < li_end x) st"
  shows "\<exists>fuel q. parseList_loop fuel st ind p = Ret q"
proof (induction "sum_list (map li_end st) - p" arbitrary: p rule: less_induct)
  case less
  show ?case
  proof (cases "find (\<lambda>x. li_begin x = p \<and> li_indent x = ind) st")
    case None
    then have "parseList_loop (Suc 0) st ind p = Ret p" by simp
    then show ?thesis by blast
  next
    case (Some n)
    from find_SomeD[OF Some] have n: "n \<in> set st" "li_begin n = p" by auto
    with assms have "p < li_end n" by (auto simp: list_all_iff)
    moreover from n have "li_end n \<le> sum_list (map li_end st)"
      by (auto intro: member_le_sum_list)
    ultimately have "sum_list (map li_end st) - li_end n < sum_list (map li_end st) - p"
      by arith
    from less[OF this] obtain fuel q where "parseList_loop fuel st ind (li_end n) = Ret q"
      by blast
    with Some have "parseList_loop (Suc fuel) st ind p = Ret q" by simp
    then show ?thesis by blast
  qed
qed

text \<open>
  C5. With the cursor at the \<open>begin\<close> of an entry of the structure, \<^verbatim>\<open>parseList\<close> takes the
  indent of the first such entry as the indent of the list. Whenever it returns, the
  node is a plain list with this indent, the cursor as \<open>contentsBegin\<close>, the whole
  structure and a \<open>contentsEnd\<close> that the hops of the specification reach from the end of
  the entry and at which no entry of this indent begins; the cursor is moved to
  \<open>contentsEnd\<close>. It never throws, and it returns, with the same result for all fuel from
  some bound on, when every entry ends after its begin (as the entries of
  \<^verbatim>\<open>parseListStructure\<close> do; the hops of an entry that ends where it begins never end).
\<close>

theorem parseList_contents:
  assumes item: "find (\<lambda>x. li_begin x = offset r) st = Some item"
  shows "(\<forall>fuel res. parseList fuel st r = Ret res \<longrightarrow>
            (\<exists>pos. res = (PlainList (li_indent item) (offset r) pos st [], resetOffset r pos) \<and>
                   hops st (li_indent item) (li_end item) pos \<and>
                   find (\<lambda>x. li_begin x = pos \<and> li_indent x = li_indent item) st = None)) \<and>
         (\<forall>fuel e. parseList fuel st r \<noteq> Throw e) \<and>
         (list_all (\<lambda>x. li_begin x < li_end x) st \<longrightarrow>
            (\<exists>N pos. \<forall>fuel\<ge>N. parseList fuel st r =
               Ret (PlainList (li_indent item) (offset r) pos st [], resetOffset r pos)))"
proof (intro conjI allI impI)
  fix fuel res
  assume "parseList fuel st r = Ret res"
  with item obtain pos where
    pos: "parseList_loop fuel st (li_indent item) (li_end item) = Ret pos" and
    res: "res = (PlainList (li_indent item) (offset r) pos st [], resetOffset r pos)"
    by (auto simp: parseList_def split: result.splits)
  from parseList_loop_sound[OF pos] res
  show "\<exists>pos. res = (PlainList (li_indent item) (offset r) pos st [], resetOffset r pos) \<and>
          hops st (li_indent item) (li_end item) pos \<and>
          find (\<lambda>x. li_begin x = pos \<and> li_indent x = li_indent item) st = None"
    by blast
next
  fix fuel e
  have "parseList_loop fuel st ind p \<noteq> Throw e" for ind p
    by (induction fuel arbitrary: p) (auto split: option.splits)
  with item show "parseList fuel st r \<noteq> Throw e"
    by (auto simp: parseList_def split: result.splits)
next
  assume "list_all (\<lambda>x. li_begin x < li_end x) st"
  from parseList_loop_terminates[OF this] obtain N pos where
    "parseList_loop N st (li_indent item) (li_end item) = Ret pos"
    by blast
  then have "\<forall>fuel\<ge>N. parseList_loop fuel st (li_indent item) (li_end item) = Ret pos"
    by (blast intro: parseList_loop_mono)
  with item have "\<forall>fuel\<ge>N. parseList fuel st r =
      Ret (PlainList (li_indent item) (offset r) pos st [], resetOffset r pos)"
    by (simp add: parseList_def)
  then show "\<exists>N pos. \<forall>fuel\<ge>N. parseList fuel st r =
      Ret (PlainList (li_indent item) (offset r) pos st [], resetOffset r pos)"
    by blast
qed

theorem parseList_contents_witness:
  "find (\<lambda>x. li_begin x = offset (Reader ''- hi\<newline>- there'')) two_items = Some (hd two_items) \<and>
   list_all (\<lambda>x. li_begin x < li_end x) two_items \<and>
   parseList 3 two_items (Reader ''- hi\<newline>- there'') =
     Ret (PlainList 0 0 12 two_items [], resetOffset (Reader ''- hi\<newline>- there'') 12) \<and>
   hops two_items 0 5 12 \<and>
   find (\<lambda>x. li_begin x = 12 \<and> li_indent x = 0) two_items = None \<and>
   (\<exists>N pos. \<forall>fuel\<ge>N. parseList fuel two_items (Reader ''- hi\<newline>- there'') =
      Ret (PlainList 0 0 pos two_items [], resetOffset (Reader ''- hi\<newline>- there'') pos))"
proof -
  let ?r = "Reader ''- hi\<newline>- there''"
  have f: "find (\<lambda>x. li_begin x = offset ?r) two_items = Some (hd two_items)"
    by (simp add: two_items_def offset_def Reader_def)
  have nd: "list_all (\<lambda>x. li_begin x < li_end x) two_items"
    by (simp add: two_items_def)
  have run: "parseList 3 two_items ?r = Ret (PlainList 0 0 12 two_items [], resetOffset ?r 12)"
    by (simp add: parseList_def two_items_def offset_def Reader_def numeral_3_eq_3)
  note inst = parseList_contents [OF f]
  from inst run
  have "\<exists>pos. (PlainList 0 0 12 two_items [], resetOffset ?r 12) =
           (PlainList (li_indent (hd two_items)) (offset ?r) pos two_items [], resetOffset ?r pos) \<and>
         hops two_items (li_indent (hd two_items)) (li_end (hd two_items)) pos \<and>
         find (\<lambda>x. li_begin x = pos \<and> li_indent x = li_indent (hd two_items)) two_items = None"
    by blast
  then have a: "hops two_items 0 5 12 \<and> find (\<lambda>x. li_begin x = 12 \<and> li_indent x = 0) two_items = None"
    by (auto simp: two_items_def)
  from inst nd
  have "\<exists>N pos. \<forall>fuel\<ge>N. parseList fuel two_items ?r =
      Ret (PlainList (li_indent (hd two_items)) (offset ?r) pos two_items [], resetOffset ?r pos)"
    by blast
  then have b: "\<exists>N pos. \<forall>fuel\<ge>N. parseList fuel two_items ?r =
      Ret (PlainList 0 0 pos two_items [], resetOffset ?r pos)"
    by (simp add: two_items_def offset_def Reader_def)
  from f nd run a b show ?thesis by simp
qed

section \<open>C6: the description of a bracket link\<close>

lemma objectRegexp_description:
  "\<exists>i. objectRegexp u ''b [[c'' = Some i \<and> (i = 0 \<or> i = 1 \<or> i = 2)"
  by (simp add: objectRegexp_def)

text \<open>
  C6. The description of a bracket link should be parsed by \<^verbatim>\<open>parseObjects\<close> under the
  restriction of a link, and this parse should succeed for every description.
  \<^verbatim>\<open>parseLink\<close> passes the string \<^verbatim>\<open>'link'\<close> where \<^verbatim>\<open>parseObjects\<close> expects a set
  (\<^verbatim>\<open>parseHeadline\<close> and \<^verbatim>\<open>parseElements\<close> pass \<^verbatim>\<open>restriction(type)\<close>), so the first object
  start in a description makes \<^verbatim>\<open>parseObject\<close> call \<^verbatim>\<open>has\<close> on a string, a \<^verbatim>\<open>TypeError\<close>. For
  the link \<^verbatim>\<open>[[a][b [[c]]\<close>, whose description is \<^verbatim>\<open>b [[c\<close>, this holds for every instance of
  the imported tables, and \<^verbatim>\<open>parse\<close> raises the error.
\<close>

theorem parseLink_description_TypeError:
  "parseLink (Suc fuel) u (Reader ''[[a][b [[c]]'') = Throw TypeError
   \<and> parse (4 + k) specUtils ''[[a][b [[c]]'' = Throw TypeError"
proof
  obtain i where i: "objectRegexp u ''b [[c'' = Some i" "i = 0 \<or> i = 1 \<or> i = 2"
    using objectRegexp_description by blast
  from i(2) show "parseLink (Suc fuel) u (Reader ''[[a][b [[c]]'') = Throw TypeError"
    using i(1)
    by (auto simp add: parseObjects.simps parseObject.simps parseLink.simps reader_defs
          linkBracketRe_def link_match_def link_tail_def group_of_def is_line_terminator_def)
  have "parse 4 specUtils ''[[a][b [[c]]'' = Throw TypeError"
    by code_simp
  then show "parse (4 + k) specUtils ''[[a][b [[c]]'' = Throw TypeError"
    using parse_fuel [of 4 specUtils "''[[a][b [[c]]''" k] by simp
qed

section \<open>C7: the type of a bracket link\<close>

lemma scheme_len_no_colon: "CHR '':'' \<notin> set s \<Longrightarrow> scheme_len s = None"
  by (induction s) (auto split: list.splits)

lemma linkType_from_no_colon: "CHR '':'' \<notin> set s \<Longrightarrow> linkType_from i s = None"
  by (induction s arbitrary: i) (auto simp: scheme_len_no_colon simp del: scheme_len.simps)

lemma scheme_len_prefix:
  "a \<noteq> [] \<Longrightarrow> CHR '':'' \<notin> set a \<Longrightarrow> list_all (\<lambda>c. \<not> is_line_terminator c) a \<Longrightarrow>
     scheme_len (a @ CHR '':'' # b) = Some (length a)"
proof (induction a)
  case Nil
  then show ?case by simp
next
  case (Cons c a)
  then show ?case by (cases a) auto
qed

lemma re_linkType_no_colon: "CHR '':'' \<notin> set s \<Longrightarrow> re_linkType s = None"
  by (simp add: re_linkType_def linkType_from_no_colon)

lemma re_linkType_prefix:
  assumes "a \<noteq> []" "CHR '':'' \<notin> set a" "list_all (\<lambda>c. \<not> is_line_terminator c) a"
  shows "\<exists>t. re_linkType (a @ CHR '':'' # b) = Some t \<and> group_of t ''1'' = a"
proof -
  from assms(1) obtain c cs where a: "a = c # cs" by (cases a) auto
  from scheme_len_prefix[OF assms] have "scheme_len (c # cs @ CHR '':'' # b) = Some (length a)"
    by (simp add: a)
  then show ?thesis
    by (simp add: re_linkType_def a group_of_def del: scheme_len.simps)
qed

text \<open>
  C7, as stated: the link type is the substring of the target before the first colon,
  or \<^verbatim>\<open>fuzzy\<close> when the target has no colon. The expression \<^verbatim>\<open>/(.+?):/\<close> wants at least one
  character before the colon: the target \<^verbatim>\<open>:foo\<close> has a colon, the substring before it is
  empty, and the link type is \<^verbatim>\<open>fuzzy\<close>.
\<close>

theorem parseLink_linkType_counterexample:
  "parseLink 0 specUtils (Reader ''[[:foo]]'') =
     Ret (Some (Link ''fuzzy'' '':foo'' []), advance (Reader ''[[:foo]]'') 8)
   \<and> CHR '':'' \<in> set '':foo''
   \<and> takeWhile (\<lambda>c. c \<noteq> CHR '':'') '':foo'' = ''''"
  by code_simp

text \<open>
  C7, amended. For a bracket link at the cursor, \<^verbatim>\<open>parseLink\<close> sets \<^verbatim>\<open>rawLink\<close> to the
  target; the link type is \<^verbatim>\<open>fuzzy\<close> when the target has no colon, and it is the substring
  before the first colon when that substring is not empty and holds no line terminator.
  Without a description the link node is returned with no children. And
  \<^verbatim>\<open>parse("[[link][text]]")\<close> is the root with a section with a paragraph whose single
  child is the link of type \<^verbatim>\<open>fuzzy\<close> to \<^verbatim>\<open>link\<close> with the text \<^verbatim>\<open>text\<close> as its child.
\<close>

theorem parseLink_linkType:
  assumes br: "peek r 1 = ''[''" and m: "match r linkBracketRe = Some m"
  shows "(m_groups m ''text'' = None \<longrightarrow>
            (\<exists>t. parseLink fuel u r = Ret (Some (Link t (group_of m ''link'') []), advance_match r (Some m)))) \<and>
         (\<forall>node r'. parseLink fuel u r = Ret (Some node, r') \<longrightarrow>
            (\<exists>t children. node = Link t (group_of m ''link'') children \<and>
               (CHR '':'' \<notin> set (group_of m ''link'') \<longrightarrow> t = ''fuzzy'') \<and>
               (\<forall>a b. group_of m ''link'' = a @ CHR '':'' # b \<and> a \<noteq> [] \<and> CHR '':'' \<notin> set a \<and>
                      list_all (\<lambda>c. \<not> is_line_terminator c) a \<longrightarrow> t = a))) \<and>
         parse (4 + k) specUtils ''[[link][text]]'' =
           Ret (OrgData 0 14 [Section 0 14 [Paragraph 0 14 [Link ''fuzzy'' ''link'' [Text ''text'']]]])"
proof (intro conjI allI impI)
  assume "m_groups m ''text'' = None"
  with br m show "\<exists>t. parseLink fuel u r =
      Ret (Some (Link t (group_of m ''link'') []), advance_match r (Some m))"
    by (simp add: parseLink.simps)
next
  fix node r'
  assume ret: "parseLink fuel u r = Ret (Some node, r')"
  let ?t = "case re_linkType (group_of m ''link'') of Some t \<Rightarrow> group_of t ''1'' | None \<Rightarrow> ''fuzzy''"
  from ret br m obtain children where node: "node = Link ?t (group_of m ''link'') children"
    by (auto simp: parseLink.simps split: option.splits result.splits if_splits)
  have "CHR '':'' \<notin> set (group_of m ''link'') \<longrightarrow> ?t = ''fuzzy''"
    by (simp add: re_linkType_no_colon)
  moreover have "\<forall>a b. group_of m ''link'' = a @ CHR '':'' # b \<and> a \<noteq> [] \<and> CHR '':'' \<notin> set a \<and>
                      list_all (\<lambda>c. \<not> is_line_terminator c) a \<longrightarrow> ?t = a"
  proof (intro allI impI)
    fix a b
    assume h: "group_of m ''link'' = a @ CHR '':'' # b \<and> a \<noteq> [] \<and> CHR '':'' \<notin> set a \<and>
                      list_all (\<lambda>c. \<not> is_line_terminator c) a"
    then obtain t where "re_linkType (a @ CHR '':'' # b) = Some t" "group_of t ''1'' = a"
      using re_linkType_prefix by blast
    with h show "?t = a" by simp
  qed
  ultimately show "\<exists>t children. node = Link t (group_of m ''link'') children \<and>
               (CHR '':'' \<notin> set (group_of m ''link'') \<longrightarrow> t = ''fuzzy'') \<and>
               (\<forall>a b. group_of m ''link'' = a @ CHR '':'' # b \<and> a \<noteq> [] \<and> CHR '':'' \<notin> set a \<and>
                      list_all (\<lambda>c. \<not> is_line_terminator c) a \<longrightarrow> t = a)"
    using node by blast
next
  have "parse 4 specUtils ''[[link][text]]'' =
           Ret (OrgData 0 14 [Section 0 14 [Paragraph 0 14 [Link ''fuzzy'' ''link'' [Text ''text'']]]])"
    by code_simp
  then show "parse (4 + k) specUtils ''[[link][text]]'' =
           Ret (OrgData 0 14 [Section 0 14 [Paragraph 0 14 [Link ''fuzzy'' ''link'' [Text ''text'']]]])"
    using parse_fuel [of 4 specUtils "''[[link][text]]''" k] by simp
qed

theorem parseLink_linkType_witness:
  "peek (Reader ''[[http://x.y]]'') 1 = ''[''
   \<and> map_option (\<lambda>m. group_of m ''link'') (match (Reader ''[[http://x.y]]'') linkBracketRe) = Some ''http://x.y''
   \<and> parseLink 0 specUtils (Reader ''[[http://x.y]]'') =
       Ret (Some (Link ''http'' ''http://x.y'' []), advance (Reader ''[[http://x.y]]'') 14)"
proof -
  let ?r = "Reader ''[[http://x.y]]''"
  have br: "peek ?r 1 = ''[''" by code_simp
  obtain m where m: "match ?r linkBracketRe = Some m" and g: "group_of m ''link'' = ''http://x.y''"
    and tx: "m_groups m ''text'' = None" and adv: "advance_match ?r (Some m) = advance ?r 14"
    by (simp add: reader_defs linkBracketRe_def link_match_def link_tail_def group_of_def)
  note inst = parseLink_linkType[OF br m, of 0 specUtils]
  from inst tx obtain t where
    ret: "parseLink 0 specUtils ?r = Ret (Some (Link t (group_of m ''link'') []), advance_match ?r (Some m))"
    by blast
  from inst ret obtain t' children where
    "Link t (group_of m ''link'') [] = Link t' (group_of m ''link'') children"
    "\<forall>a b. group_of m ''link'' = a @ CHR '':'' # b \<and> a \<noteq> [] \<and> CHR '':'' \<notin> set a \<and>
            list_all (\<lambda>c. \<not> is_line_terminator c) a \<longrightarrow> t' = a"
    by blast
  then have "group_of m ''link'' = ''http'' @ CHR '':'' # ''//x.y'' \<and> ''http'' \<noteq> [] \<and> CHR '':'' \<notin> set ''http'' \<and>
            list_all (\<lambda>c. \<not> is_line_terminator c) ''http'' \<longrightarrow> t = ''http''"
    by blast
  then have "t = ''http''" by (simp add: g is_line_terminator_def)
  with ret g adv br m show ?thesis by simp
qed

section \<open>C8: the cursor and the list structure\<close>


subsection \<open>Line starts\<close>

lemma offset_resetOffset [simp]: "offset (resetOffset r p) = p"
  by (simp add: offset_def resetOffset_def)

lemma resetOffset_offset [simp]: "resetOffset r (offset r) = r"
  by (simp add: offset_def resetOffset_def)

lemma resetOffset_resetOffset [simp]: "resetOffset (resetOffset r p) q = resetOffset r q"
  by (simp add: resetOffset_def)







lemma line_bounds:
  assumes "r_end r \<le> length (r_text r)" and "p < r_end r"
  shows "0 < length (line (resetOffset r p))" and "p + length (line (resetOffset r p)) \<le> r_end r"
proof -
  have len: "length (rest (resetOffset r p)) = r_end r - p"
    using assms(1) by (simp add: rest_def resetOffset_def)
  with assms(2) have "rest (resetOffset r p) \<noteq> []" by auto
  then show "0 < length (line (resetOffset r p))"
    by (simp add: line_def upto_newline_empty)
  show "p + length (line (resetOffset r p)) \<le> r_end r"
    using length_upto_newline[of "rest (resetOffset r p)"] len assms(2) by (simp add: line_def)
qed

lemma line_start_le_end:
  assumes wf: "r_end r \<le> length (r_text r)" "r_offset r \<le> r_end r"
  shows "line_start r p \<Longrightarrow> p \<le> r_end r"
proof (induction rule: line_start.induct)
  case line_start_cursor
  from wf show ?case by (simp add: offset_def)
next
  case (line_start_next p)
  show ?case
  proof (cases "p < r_end r")
    case True
    with wf show ?thesis by (simp add: line_bounds)
  next
    case False
    with line_start_next have "p = r_end r" by simp
    then have "rest (resetOffset r p) = []" by (simp add: rest_def resetOffset_def)
    then show ?thesis using line_start_next by (simp add: line_def)
  qed
qed

subsection \<open>Closing the open items\<close>




subsection \<open>The invariant of the scan\<close>













subsection \<open>The blank lines after the list\<close>





subsection \<open>The structure that is returned\<close>









section \<open>C9: all-whitespace text among the objects\<close>


















section \<open>C10: blank input\<close>

lemma parseEmptyLines_loop_blank:
  "list_all is_space (rest r) \<Longrightarrow> r_offset r \<le> r_end r \<Longrightarrow> r_end r \<le> length (r_text r) \<Longrightarrow>
     snd (parseEmptyLines_loop r acc) = r\<lparr>r_offset := r_end r\<rparr>"
proof (induction r acc rule: parseEmptyLines_loop.induct)
  case (1 r result)
  from "1.prems"(1) have blank: "length (trim (line r)) = 0"
    by (simp add: line_def trim_all_space list_all_upto_newline)
  show ?case
  proof (cases "line r = []")
    case True
    then have "rest r = []" by (simp add: line_def upto_newline_empty)
    with "1.prems" have "r_offset r = r_end r"
      using length_rest[of r] by simp
    with True blank show ?thesis
      by (subst parseEmptyLines_loop.simps) (simp add: advance_def)
  next
    case False
    let ?r' = "advance r (length (line r))"
    have n: "length (line r) \<le> r_end r - r_offset r"
      using length_upto_newline[of "rest r"] length_rest[OF "1.prems"(3)] by (simp add: line_def)
    have "list_all is_space (rest ?r')"
      using "1.prems"(1) by (simp add: rest_advance list_all_iff) (meson in_set_dropD)
    moreover have "r_offset ?r' \<le> r_end ?r'" "r_end ?r' \<le> length (r_text ?r')"
      using n "1.prems" by (simp_all add: advance_def)
    ultimately have "snd (parseEmptyLines_loop ?r' (result @ [line r])) = ?r'\<lparr>r_offset := r_end ?r'\<rparr>"
      using "1.IH"[OF blank False] by blast
    with blank False show ?thesis
      by (subst parseEmptyLines_loop.simps) (simp add: advance_def)
  qed
qed

text \<open>
  C10. For every input that consists of blank lines only, the empty input included,
  \<^verbatim>\<open>parse\<close> returns the root node with no children, \<open>contentsBegin\<close> 0 and \<open>contentsEnd\<close>
  the length of the input, for every instance of the imported tables: the blank lines
  are consumed before the first element, and one unit of fuel is enough.
\<close>

theorem parse_blank_lines:
  assumes "blank_lines text"
  shows "parse (Suc fuel) u text = Ret (OrgData 0 (length text) [])"
proof -
  from assms have "list_all is_space (rest (Reader text))"
    by (auto simp: blank_lines_def rest_def Reader_def list_all_iff is_space_def)
  then have "snd (parseEmptyLines (Reader text)) = (Reader text)\<lparr>r_offset := length text\<rparr>"
    using parseEmptyLines_loop_blank[of "Reader text" "[]"]
    by (simp add: parseEmptyLines_def Reader_def)
  then show ?thesis
    by (simp add: parse_def parseElements_def eof_def offset_def endOffset_def Reader_def)
qed

theorem parse_blank_lines_witness:
  "blank_lines (''  \<newline>'' @ [CHR 0x09] @ ''\<newline>\<newline> '')
   \<and> parse 1 specUtils (''  \<newline>'' @ [CHR 0x09] @ ''\<newline>\<newline> '') = Ret (OrgData 0 7 [])
   \<and> blank_lines '''' \<and> parse 1 specUtils '''' = Ret (OrgData 0 0 [])"
proof -
  have a: "blank_lines (''  \<newline>'' @ [CHR 0x09] @ ''\<newline>\<newline> '')" and b: "blank_lines ''''"
    by (simp_all add: blank_lines_def)
  from parse_blank_lines[OF a, of 0 specUtils] parse_blank_lines[OF b, of 0 specUtils] a b
  show ?thesis by simp
qed

end
